theory Spec2Isabelle
  imports Main "HOL-Library.Word"
begin

unbundle bit_operations_syntax

section \<open>Machine types of editcap.c\<close>

text \<open>
  \<^verbatim>\<open>guint8\<close> and \<^verbatim>\<open>guint32\<close> are unsigned machine words.  A C \<^verbatim>\<open>int\<close> is a
  32-bit two's complement value: it is kept as a 32-bit word, read through \<open>sint\<close>
  wherever the source compares or widens it as a signed number, and converting it to
  \<^verbatim>\<open>guint32\<close> (or back) leaves the bits alone.
\<close>

type_synonym guint8 = "8 word"
type_synonym guint32 = "32 word"
type_synonym gint = "32 word"

section \<open>Chopping: \<^verbatim>\<open>chop_t\<close> and \<^verbatim>\<open>handle_chopping\<close>\<close>

record chop_t =
  len_begin :: gint
  off_begin_pos :: gint
  off_begin_neg :: gint
  len_end :: gint
  off_end_pos :: gint
  off_end_neg :: gint

text \<open>The two fields of \<^verbatim>\<open>wtap_packet_header\<close> that \<^verbatim>\<open>handle_chopping\<close> touches.\<close>

record wtap_packet_header =
  caplen :: guint32
  len :: guint32

text \<open>
  The packet bytes live in memory, and \<^verbatim>\<open>guint8 **buf\<close> lets the function both move
  bytes and advance the caller's pointer.  Memory is a store from addresses to bytes and
  \<open>buf\<close> is the address the caller's pointer holds.
\<close>

record packet_buffer =
  store :: "int \<Rightarrow> guint8"
  buf :: int

definition memmove :: "(int \<Rightarrow> guint8) \<Rightarrow> int \<Rightarrow> int \<Rightarrow> nat \<Rightarrow> (int \<Rightarrow> guint8)" where
  "memmove m dst src n =
     (\<lambda>a. if dst \<le> a \<and> a < dst + int n then m (src + (a - dst)) else m a)"

text \<open>Conversion of a C \<^verbatim>\<open>int\<close> to \<^verbatim>\<open>size_t\<close> (64 bits): sign extension.\<close>

definition size_t_of_gint :: "gint \<Rightarrow> nat" where
  "size_t_of_gint x = unat (scast x :: 64 word)"

text \<open>Lines 2000-2003: an offset without a length is meaningless.\<close>

definition chop_clear_offsets :: "chop_t \<Rightarrow> chop_t" where
  "chop_clear_offsets chop =
     (let chop = (if len_begin chop = 0
                  then chop\<lparr>off_begin_pos := 0, off_begin_neg := 0\<rparr> else chop)
      in if len_end chop = 0
         then chop\<lparr>off_end_pos := 0, off_end_neg := 0\<rparr> else chop)"

text \<open>Lines 2005-2012: fold the negative begin offset and the positive end offset.\<close>

definition chop_fold_offsets :: "guint32 \<Rightarrow> chop_t \<Rightarrow> chop_t" where
  "chop_fold_offsets in_caplen chop =
     (let chop = (if sint (off_begin_neg chop) < 0
                  then chop\<lparr>off_begin_pos := off_begin_pos chop + (in_caplen + off_begin_neg chop),
                            off_begin_neg := 0\<rparr>
                  else chop)
      in if 0 < sint (off_end_pos chop)
         then chop\<lparr>off_end_neg := off_end_neg chop + (off_end_pos chop - in_caplen),
                   off_end_pos := 0\<rparr>
         else chop)"

text \<open>Lines 2014-2028: crossed chopping regions are swapped.\<close>

definition chop_swap_crossed :: "guint32 \<Rightarrow> chop_t \<Rightarrow> chop_t" where
  "chop_swap_crossed in_caplen chop =
     (if len_begin chop \<noteq> 0 \<and> len_end chop \<noteq> 0
      then if sint (in_caplen + off_end_neg chop) < sint (off_begin_pos chop)
           then let tmp_off = in_caplen + off_end_neg chop + len_end chop;
                    tmp_len = - len_end chop
                in chop\<lparr>off_end_neg := len_begin chop + off_begin_pos chop - in_caplen,
                        len_end := - len_begin chop,
                        len_begin := tmp_len,
                        off_begin_pos := tmp_off\<rparr>
           else chop
      else chop)"

text \<open>Lines 2030-2039: do not chop off more than is available.\<close>

definition chop_limit :: "guint32 \<Rightarrow> chop_t \<Rightarrow> chop_t" where
  "chop_limit in_caplen chop =
     (let chop = (if in_caplen < off_begin_pos chop - off_end_neg chop
                  then chop\<lparr>len_begin := 0, len_end := 0\<rparr> else chop)
      in if in_caplen - (off_begin_pos chop - off_end_neg chop) < len_begin chop - len_end chop
         then chop\<lparr>len_begin := in_caplen - (off_begin_pos chop - off_end_neg chop),
                   len_end := 0\<rparr>
         else chop)"

text \<open>
  Lines 2041-2062: chopping from the beginning.  The result is the header behind
  \<^verbatim>\<open>out_phdr\<close>, the header \<^verbatim>\<open>in_phdr\<close> points to afterwards, and the buffer.
\<close>

definition chop_from_begin ::
  "chop_t \<Rightarrow> wtap_packet_header \<Rightarrow> wtap_packet_header \<Rightarrow> packet_buffer \<Rightarrow> bool \<Rightarrow>
   wtap_packet_header \<times> wtap_packet_header \<times> packet_buffer" where
  "chop_from_begin chop out_phdr in_phdr b adjlen =
     (if 0 < sint (len_begin chop)
      then let out_phdr = in_phdr;
               b = (if 0 < sint (off_begin_pos chop)
                    then b\<lparr>store := memmove (store b)
                                      (buf b + sint (off_begin_pos chop))
                                      (buf b + sint (off_begin_pos chop) + sint (len_begin chop))
                                      (unat (caplen out_phdr - len_begin chop))\<rparr>
                    else b\<lparr>buf := buf b + sint (len_begin chop)\<rparr>);
               out_phdr = out_phdr\<lparr>caplen := caplen out_phdr - len_begin chop\<rparr>;
               out_phdr = (if adjlen
                           then if len_begin chop < len in_phdr
                                then out_phdr\<lparr>len := len out_phdr - len_begin chop\<rparr>
                                else out_phdr\<lparr>len := 0\<rparr>
                           else out_phdr)
           in (out_phdr, out_phdr, b)
      else (out_phdr, in_phdr, b))"

text \<open>Lines 2064-2083: chopping from the end.\<close>

definition chop_from_end ::
  "chop_t \<Rightarrow> wtap_packet_header \<Rightarrow> wtap_packet_header \<Rightarrow> packet_buffer \<Rightarrow> bool \<Rightarrow>
   wtap_packet_header \<times> packet_buffer" where
  "chop_from_end chop out_phdr in_phdr b adjlen =
     (if sint (len_end chop) < 0
      then let out_phdr = in_phdr;
               b = (if sint (off_end_neg chop) < 0
                    then b\<lparr>store := memmove (store b)
                                      (buf b + sint (caplen out_phdr)
                                         + sint (len_end chop + off_end_neg chop))
                                      (buf b + sint (caplen out_phdr) + sint (off_end_neg chop))
                                      (size_t_of_gint (- off_end_neg chop))\<rparr>
                    else b);
               out_phdr = out_phdr\<lparr>caplen := caplen out_phdr + len_end chop\<rparr>;
               out_phdr = (if adjlen
                           then if 0 < sint (len in_phdr + len_end chop)
                                then out_phdr\<lparr>len := len out_phdr + len_end chop\<rparr>
                                else out_phdr\<lparr>len := 0\<rparr>
                           else out_phdr)
           in (out_phdr, b)
      else (out_phdr, b))"

text \<open>The chop specification as lines 2000-2028 leave it, and as lines 2000-2039 do.\<close>

definition chop_regions :: "guint32 \<Rightarrow> chop_t \<Rightarrow> chop_t" where
  "chop_regions in_caplen chop =
     chop_swap_crossed in_caplen (chop_fold_offsets in_caplen (chop_clear_offsets chop))"

definition chop_normalize :: "guint32 \<Rightarrow> chop_t \<Rightarrow> chop_t" where
  "chop_normalize in_caplen chop = chop_limit in_caplen (chop_regions in_caplen chop)"

definition handle_chopping ::
  "chop_t \<Rightarrow> wtap_packet_header \<Rightarrow> wtap_packet_header \<Rightarrow> packet_buffer \<Rightarrow> bool \<Rightarrow>
   wtap_packet_header \<times> packet_buffer" where
  "handle_chopping chop out_phdr in_phdr b adjlen =
     (let chop = chop_normalize (caplen in_phdr) chop
      in case chop_from_begin chop out_phdr in_phdr b adjlen of
           (out_phdr, in_phdr, b) \<Rightarrow> chop_from_end chop out_phdr in_phdr b adjlen)"

text \<open>
  The call in the packet loop (lines 1686-1690): the record is copied to \<^verbatim>\<open>temp_rec\<close>,
  whose header is \<^verbatim>\<open>out_phdr\<close>, and the record read is \<^verbatim>\<open>in_phdr\<close>.
\<close>

definition chop_packet ::
  "chop_t \<Rightarrow> wtap_packet_header \<Rightarrow> packet_buffer \<Rightarrow> bool \<Rightarrow>
   wtap_packet_header \<times> packet_buffer" where
  "chop_packet chop phdr b adjlen = handle_chopping chop phdr phdr b adjlen"

text \<open>
  Lines 978 and 1160-1172: the chop specification starts as zeros, and each \<^verbatim>\<open>-C\<close> option
  (its offset and length as \<^verbatim>\<open>sscanf\<close> read them) is added to it.
\<close>

definition chop_none :: chop_t where
  "chop_none = \<lparr>len_begin = 0, off_begin_pos = 0, off_begin_neg = 0,
                 len_end = 0, off_end_pos = 0, off_end_neg = 0\<rparr>"

definition chop_option :: "gint \<Rightarrow> gint \<Rightarrow> chop_t \<Rightarrow> chop_t" where
  "chop_option chopoff choplen chop =
     (if 0 < sint choplen
      then let chop = chop\<lparr>len_begin := len_begin chop + choplen\<rparr>
           in if 0 < sint chopoff
              then chop\<lparr>off_begin_pos := off_begin_pos chop + chopoff\<rparr>
              else chop\<lparr>off_begin_neg := off_begin_neg chop + chopoff\<rparr>
      else if sint choplen < 0
           then let chop = chop\<lparr>len_end := len_end chop + choplen\<rparr>
                in if 0 < sint chopoff
                   then chop\<lparr>off_end_pos := off_end_pos chop + chopoff\<rparr>
                   else chop\<lparr>off_end_neg := off_end_neg chop + chopoff\<rparr>
           else chop)"



section \<open>Timestamps: \<^verbatim>\<open>nstime_t\<close> and \<^verbatim>\<open>struct time_adjustment\<close>\<close>

text \<open>
  An \<^verbatim>\<open>nstime_t\<close> has a \<^verbatim>\<open>time_t secs\<close> and an \<^verbatim>\<open>int nsecs\<close>.  The nanoseconds are
  a 32-bit C \<^verbatim>\<open>int\<close>, as above.  The width of \<^verbatim>\<open>time_t\<close> is the platform's and its
  overflow is undefined in C: the seconds are integers.
\<close>

record nstime_t =
  secs :: int
  nsecs :: gint

record time_adjustment =
  tv :: nstime_t
  is_negative :: gint

definition ONE_BILLION :: gint where
  "ONE_BILLION = 1000000000"

text \<open>
  \<^verbatim>\<open>NSTIME_INIT_ZERO\<close> (a macro of wsutil/nstime.h: both fields zero), the initial value
  of \<^verbatim>\<open>previous_time\<close> (line 176).
\<close>

definition NSTIME_INIT_ZERO :: nstime_t where
  "NSTIME_INIT_ZERO = \<lparr>secs = 0, nsecs = 0\<rparr>"

text \<open>
  The time a timestamp stands for, in nanoseconds, and the invariant of the data model:
  the nanoseconds field lies in \<open>[0, 10\<^sup>9)\<close>.
\<close>

definition nstime_ns :: "nstime_t \<Rightarrow> int" where
  "nstime_ns t = secs t * 1000000000 + sint (nsecs t)"

definition nstime_normal :: "nstime_t \<Rightarrow> bool" where
  "nstime_normal t \<longleftrightarrow> 0 \<le> sint (nsecs t) \<and> sint (nsecs t) < 1000000000"

text \<open>
  Modelled from the spec: \<^verbatim>\<open>nstime_delta\<close> of wsutil/nstime.c, which is not among the
  sources.  The spec has it compute \<open>delta = b - a\<close>, a delta that is negative when \<open>b\<close>
  precedes \<open>a\<close>; the callers test \<^verbatim>\<open>delta.secs < 0 || delta.nsecs < 0\<close>, so both fields
  carry the sign of the difference.
\<close>

definition nstime_delta :: "nstime_t \<Rightarrow> nstime_t \<Rightarrow> nstime_t" where
  "nstime_delta b a =
     (let d = nstime_ns b - nstime_ns a
      in \<lparr>secs = sgn d * (\<bar>d\<bar> div 1000000000),
          nsecs = word_of_int (sgn d * (\<bar>d\<bar> mod 1000000000))\<rparr>)"

subsection \<open>Strict time adjustment (lines 1575-1630)\<close>

text \<open>
  Lines 1597-1605 and, word for word, lines 1617-1625: the previous time plus the strict
  adjustment, with a carry out of the nanoseconds.
\<close>

definition strict_rewrite :: "time_adjustment \<Rightarrow> nstime_t \<Rightarrow> nstime_t" where
  "strict_rewrite strict_time_adj previous_time =
     (let ts = \<lparr>secs = secs previous_time + secs (tv strict_time_adj),
                nsecs = nsecs previous_time\<rparr>
      in if sint ONE_BILLION \<le> sint (nsecs ts + nsecs (tv strict_time_adj))
         then \<lparr>secs = secs ts + 1,
               nsecs = nsecs ts + (nsecs (tv strict_time_adj) - ONE_BILLION)\<rparr>
         else ts\<lparr>nsecs := nsecs ts + nsecs (tv strict_time_adj)\<rparr>)"

text \<open>
  One timestamped packet through the strict adjustment: the result is the packet's
  timestamp after the step and the new value of \<^verbatim>\<open>previous_time\<close>.
\<close>

definition strict_time_adjustment ::
  "time_adjustment \<Rightarrow> nstime_t \<Rightarrow> nstime_t \<Rightarrow> nstime_t \<times> nstime_t" where
  "strict_time_adjustment strict_time_adj previous_time ts =
     (let ts =
        (if secs previous_time \<noteq> 0 \<or> nsecs previous_time \<noteq> 0
         then if is_negative strict_time_adj = 0
              then let delta = nstime_delta ts previous_time
                   in if secs delta < 0 \<or> sint (nsecs delta) < 0
                      then strict_rewrite strict_time_adj previous_time
                      else ts
              else strict_rewrite strict_time_adj previous_time
         else ts)
      in (ts, ts))"

text \<open>
  The timestamps of the retained packets that carry one, in file order, through the
  step; packets without a timestamp do not reach it (line 1572).
\<close>

fun strict_run :: "time_adjustment \<Rightarrow> nstime_t \<Rightarrow> nstime_t list \<Rightarrow> nstime_t list" where
  "strict_run strict_time_adj previous_time [] = []"
| "strict_run strict_time_adj previous_time (ts # tss) =
     (case strict_time_adjustment strict_time_adj previous_time ts of
        (ts', previous_time') \<Rightarrow> ts' # strict_run strict_time_adj previous_time' tss)"

subsection \<open>Fixed time shift (lines 1632-1661)\<close>


section \<open>Duplicate detection (lines 101-117 and 578-737)\<close>

text \<open>
  \<^verbatim>\<open>fd_hash_t\<close>: the MD5 digest (16 bytes, one 128-bit value), the frame length and the
  frame time.  The length field is \<^verbatim>\<open>len\<close> in the source; it is \<open>fd_len\<close> here, since
  the packet header has a \<open>len\<close> already.
\<close>

record fd_hash_t =
  digest :: "128 word"
  fd_len :: guint32
  frame_time :: nstime_t

text \<open>
  The globals the two functions read and write.  \<^verbatim>\<open>dup_window\<close>, \<^verbatim>\<open>cur_dup_entry\<close>
  and the loop index are C \<^verbatim>\<open>int\<close>s that stay between -1 and \<^verbatim>\<open>MAX_DUP_DEPTH\<close>: they
  are integers, and \<^verbatim>\<open>fd_hash\<close> is indexed by them.
\<close>

record globals =
  fd_hash :: "int \<Rightarrow> fd_hash_t"
  dup_window :: int
  cur_dup_entry :: int
  ignored_bytes :: guint32
  skip_radiotap :: bool
  relative_time_window :: nstime_t

definition MAX_DUP_DEPTH :: int where
  "MAX_DUP_DEPTH = 1000000"

text \<open>
  Modelled from the spec: \<^verbatim>\<open>nstime_set_unset\<close>, \<^verbatim>\<open>nstime_is_unset\<close> and
  \<^verbatim>\<open>nstime_cmp\<close> of wsutil/nstime.c, which is not among the sources.  A slot that was
  never written has an unset timestamp, a value no packet carries (zero seconds and the
  largest \<^verbatim>\<open>int\<close> as nanoseconds), and a delta exceeds the window when it is the
  longer time.
\<close>

definition nstime_unset :: nstime_t where
  "nstime_unset = \<lparr>secs = 0, nsecs = 2147483647\<rparr>"

definition nstime_is_unset :: "nstime_t \<Rightarrow> bool" where
  "nstime_is_unset t \<longleftrightarrow> secs t = 0 \<and> nsecs t = 2147483647"

definition nstime_cmp :: "nstime_t \<Rightarrow> nstime_t \<Rightarrow> int" where
  "nstime_cmp a b =
     (if nstime_ns a < nstime_ns b then - 1 else if nstime_ns a = nstime_ns b then 0 else 1)"

text \<open>Lines 1422-1428: the table before the first packet.\<close>

definition init_fd_hash :: "int \<Rightarrow> int \<Rightarrow> fd_hash_t" where
  "init_fd_hash window =
     (\<lambda>i. if 0 \<le> i \<and> i < window
          then \<lparr>digest = 0, fd_len = 0, frame_time = nstime_unset\<rparr>
          else \<lparr>digest = 0, fd_len = 0, frame_time = NSTIME_INIT_ZERO\<rparr>)"

text \<open>
  Modelled from the spec: the size of the self-describing sub-header, read from the first
  bytes of the frame.  The source reads the \<^verbatim>\<open>it_len\<close> field of
  \<^verbatim>\<open>struct ieee80211_radiotap_header\<close> with \<^verbatim>\<open>pletoh16\<close>; neither the structure nor
  the macro is among the sources.  In a radiotap header the field is the little-endian
  16-bit value at bytes 2 and 3.
\<close>

definition radiotap_it_len :: "packet_buffer \<Rightarrow> guint32" where
  "radiotap_it_len fd =
     ucast (store fd (buf fd + 2)) OR push_bit 8 (ucast (store fd (buf fd + 3)))"

text \<open>The \<open>n\<close> bytes at \<open>&fd[offset]\<close>.\<close>

definition buffer_bytes :: "packet_buffer \<Rightarrow> guint32 \<Rightarrow> guint32 \<Rightarrow> guint8 list" where
  "buffer_bytes fd offset n =
     map (\<lambda>k. store fd (buf fd + uint offset + int k)) [0..<unat n]"

text \<open>Lines 583-598 of \<^verbatim>\<open>is_duplicate\<close>: the offset at which the digest starts.\<close>

definition dup_offset :: "globals \<Rightarrow> packet_buffer \<Rightarrow> guint32 \<Rightarrow> guint32" where
  "dup_offset g fd flen =
     (let offset = ignored_bytes g;
          offset = (if flen \<le> ignored_bytes g then 0 else offset)
      in if skip_radiotap g
         then let offset = radiotap_it_len fd
              in if flen \<le> offset then 0 else offset
         else offset)"

text \<open>Lines 630-637 of \<^verbatim>\<open>is_duplicate_rel_time\<close>: the same, as that function has it.\<close>

definition rel_time_offset :: "globals \<Rightarrow> packet_buffer \<Rightarrow> guint32 \<Rightarrow> guint32" where
  "rel_time_offset g fd flen =
     (let offset = ignored_bytes g
      in if flen \<le> ignored_bytes g then 0 else offset)"

text \<open>Lines 603-605 and 642-644: the ring cursor advances and wraps.\<close>

definition next_dup_entry :: "globals \<Rightarrow> int" where
  "next_dup_entry g =
     (let cur = cur_dup_entry g + 1 in if dup_window g \<le> cur then 0 else cur)"

text \<open>
  Lines 600-610: the digest of the bytes from the offset on, and the length, go into the
  slot of the advanced cursor.  The digest function (MD5, from libgcrypt) is a parameter.
\<close>

definition dup_insert ::
  "(guint8 list \<Rightarrow> 128 word) \<Rightarrow> packet_buffer \<Rightarrow> guint32 \<Rightarrow> globals \<Rightarrow> globals" where
  "dup_insert md5 fd flen g =
     (let offset = dup_offset g fd flen;
          new_len = flen - offset;
          cur = next_dup_entry g;
          entry = (fd_hash g cur)\<lparr>digest := md5 (buffer_bytes fd offset new_len),
                                  fd_len := flen\<rparr>
      in g\<lparr>cur_dup_entry := cur, fd_hash := (fd_hash g)(cur := entry)\<rparr>)"

text \<open>Lines 612-623: every other slot of the window is compared with the new one.\<close>

function dup_scan :: "globals \<Rightarrow> int \<Rightarrow> bool" where
  "dup_scan g i =
     (if i < dup_window g
      then if i = cur_dup_entry g then dup_scan g (i + 1)
           else if fd_len (fd_hash g i) = fd_len (fd_hash g (cur_dup_entry g))
                   \<and> digest (fd_hash g i) = digest (fd_hash g (cur_dup_entry g))
                then True
                else dup_scan g (i + 1)
      else False)"
  by pat_completeness auto
termination
  by (relation "measure (\<lambda>(g, i). nat (dup_window g - i))") auto

declare dup_scan.simps [simp del]

definition is_duplicate ::
  "(guint8 list \<Rightarrow> 128 word) \<Rightarrow> packet_buffer \<Rightarrow> guint32 \<Rightarrow> globals \<Rightarrow> bool \<times> globals" where
  "is_duplicate md5 fd flen g = (let g = dup_insert md5 fd flen g in (dup_scan g 0, g))"

text \<open>Lines 639-651: as above, with the offset of this function, and the frame time.\<close>

definition rel_time_insert ::
  "(guint8 list \<Rightarrow> 128 word) \<Rightarrow> packet_buffer \<Rightarrow> guint32 \<Rightarrow> nstime_t \<Rightarrow> globals \<Rightarrow> globals"
  where
  "rel_time_insert md5 fd flen current g =
     (let offset = rel_time_offset g fd flen;
          new_len = flen - offset;
          cur = next_dup_entry g;
          entry = \<lparr>digest = md5 (buffer_bytes fd offset new_len), fd_len = flen,
                   frame_time = \<lparr>secs = secs current, nsecs = nsecs current\<rparr>\<rparr>
      in g\<lparr>cur_dup_entry := cur, fd_hash := (fd_hash g)(cur := entry)\<rparr>)"

text \<open>
  Lines 674-736: the walk backwards from the slot before the new one.  The loop has no
  bound of its own, so it is a partial function: \<open>None\<close> is a walk that does not end, or
  one that leaves the table (an index outside \<^verbatim>\<open>fd_hash[MAX_DUP_DEPTH]\<close>).
\<close>

partial_function (option) rel_time_scan :: "globals \<Rightarrow> nstime_t \<Rightarrow> int \<Rightarrow> bool option" where
  "rel_time_scan g current i =
     (let i = (if i < 0 then dup_window g - 1 else i)
      in if i = cur_dup_entry g then Some False
         else if i < 0 \<or> MAX_DUP_DEPTH \<le> i then None
         else if nstime_is_unset (frame_time (fd_hash g i)) then Some False
         else let delta = nstime_delta current (frame_time (fd_hash g i))
              in if secs delta < 0 \<or> sint (nsecs delta) < 0
                 then rel_time_scan g current (i - 1)
                 else if 0 < nstime_cmp delta (relative_time_window g) then Some False
                 else if fd_len (fd_hash g i) = fd_len (fd_hash g (cur_dup_entry g))
                         \<and> digest (fd_hash g i) = digest (fd_hash g (cur_dup_entry g))
                      then Some True
                      else rel_time_scan g current (i - 1))"

definition is_duplicate_rel_time ::
  "(guint8 list \<Rightarrow> 128 word) \<Rightarrow> packet_buffer \<Rightarrow> guint32 \<Rightarrow> nstime_t \<Rightarrow> globals \<Rightarrow>
   (bool \<times> globals) option" where
  "is_duplicate_rel_time md5 fd flen current g =
     (let g = rel_time_insert md5 fd flen current g
      in case rel_time_scan g current (cur_dup_entry g - 1) of
           None \<Rightarrow> None
         | Some r \<Rightarrow> Some (r, g))"

text \<open>The table after a sequence of packets went through either function.\<close>

fun dup_run ::
  "(guint8 list \<Rightarrow> 128 word) \<Rightarrow> globals \<Rightarrow> (packet_buffer \<times> guint32) list \<Rightarrow> globals" where
  "dup_run md5 g [] = g"
| "dup_run md5 g ((fd, flen) # ps) = dup_run md5 (snd (is_duplicate md5 fd flen g)) ps"

fun rel_time_run ::
  "(guint8 list \<Rightarrow> 128 word) \<Rightarrow> globals \<Rightarrow> (packet_buffer \<times> guint32 \<times> nstime_t) list \<Rightarrow>
   globals" where
  "rel_time_run md5 g [] = g"
| "rel_time_run md5 g ((fd, flen, current) # ps) =
     rel_time_run md5 (rel_time_insert md5 fd flen current g) ps"

text \<open>
  What both functions do to the table, for the proofs: a writer is applied to the slot of
  the advanced cursor.  \<open>ring_puts\<close> does so for a list of writers, oldest first.
\<close>

definition ring_put :: "(fd_hash_t \<Rightarrow> fd_hash_t) \<Rightarrow> globals \<Rightarrow> globals" where
  "ring_put w g =
     (let cur = next_dup_entry g
      in g\<lparr>cur_dup_entry := cur, fd_hash := (fd_hash g)(cur := w (fd_hash g cur))\<rparr>)"

fun ring_puts :: "(fd_hash_t \<Rightarrow> fd_hash_t) list \<Rightarrow> globals \<Rightarrow> globals" where
  "ring_puts [] g = g"
| "ring_puts (w # ws) g = ring_puts ws (ring_put w g)"

text \<open>The writers of \<^verbatim>\<open>is_duplicate\<close> and of \<^verbatim>\<open>is_duplicate_rel_time\<close> for one packet.\<close>

definition dup_writer ::
  "(guint8 list \<Rightarrow> 128 word) \<Rightarrow> globals \<Rightarrow> packet_buffer \<times> guint32 \<Rightarrow> fd_hash_t \<Rightarrow> fd_hash_t"
  where
  "dup_writer md5 g p e =
     e\<lparr>digest := md5 (buffer_bytes (fst p) (dup_offset g (fst p) (snd p))
                         (snd p - dup_offset g (fst p) (snd p))),
       fd_len := snd p\<rparr>"

definition rel_time_writer ::
  "(guint8 list \<Rightarrow> 128 word) \<Rightarrow> globals \<Rightarrow> packet_buffer \<times> guint32 \<times> nstime_t \<Rightarrow>
   fd_hash_t \<Rightarrow> fd_hash_t" where
  "rel_time_writer md5 g p e =
     \<lparr>digest = md5 (buffer_bytes (fst p) (rel_time_offset g (fst p) (fst (snd p)))
                        (fst (snd p) - rel_time_offset g (fst p) (fst (snd p)))),
      fd_len = fst (snd p),
      frame_time = \<lparr>secs = secs (snd (snd p)), nsecs = nsecs (snd (snd p))\<rparr>\<rparr>"

text \<open>The bytes each function feeds to the digest, and what is compared: length and digest.\<close>

definition dup_bytes :: "globals \<Rightarrow> packet_buffer \<Rightarrow> guint32 \<Rightarrow> guint8 list" where
  "dup_bytes g fd flen =
     buffer_bytes fd (dup_offset g fd flen) (flen - dup_offset g fd flen)"

definition rel_time_bytes :: "globals \<Rightarrow> packet_buffer \<Rightarrow> guint32 \<Rightarrow> guint8 list" where
  "rel_time_bytes g fd flen =
     buffer_bytes fd (rel_time_offset g fd flen) (flen - rel_time_offset g fd flen)"

definition same_hash :: "fd_hash_t \<Rightarrow> fd_hash_t \<Rightarrow> bool" where
  "same_hash a b \<longleftrightarrow> fd_len a = fd_len b \<and> digest a = digest b"

text \<open>
  For the closed examples: a buffer that holds the given bytes from address 0 on, and a
  stand-in for MD5 (the theorems themselves hold for every digest function).
\<close>

definition buffer_of :: "guint8 list \<Rightarrow> packet_buffer" where
  "buffer_of bs =
     \<lparr>store = (\<lambda>a. if 0 \<le> a \<and> nat a < length bs then bs ! nat a else 0), buf = 0\<rparr>"

definition digest_stub :: "guint8 list \<Rightarrow> 128 word" where
  "digest_stub bs = foldl (\<lambda>h x. 257 * h + ucast x + 1) 0 bs"

definition example_globals :: "int \<Rightarrow> guint32 \<Rightarrow> bool \<Rightarrow> nstime_t \<Rightarrow> globals" where
  "example_globals window ignored radiotap rel_window =
     \<lparr>fd_hash = init_fd_hash window, dup_window = window, cur_dup_entry = 0,
      ignored_bytes = ignored, skip_radiotap = radiotap, relative_time_window = rel_window\<rparr>"

declare rel_time_scan.simps [code]

section \<open>Error injection (lines 121-132 and 1811-1850)\<close>

definition ERR_WT_BIT :: int where "ERR_WT_BIT = 5"
definition ERR_WT_BYTE :: int where "ERR_WT_BYTE = 5"
definition ERR_WT_ALNUM :: int where "ERR_WT_ALNUM = 5"
definition ERR_WT_FMT :: int where "ERR_WT_FMT = 2"
definition ERR_WT_AA :: int where "ERR_WT_AA = 1"

definition ERR_WT_TOTAL :: int where
  "ERR_WT_TOTAL = ERR_WT_BIT + ERR_WT_BYTE + ERR_WT_ALNUM + ERR_WT_FMT + ERR_WT_AA"

definition ALNUM_CHARS :: "guint8 list" where
  "ALNUM_CHARS =
     map (\<lambda>c. of_nat (of_char c))
       ''ABCDEFGHIJKLMNOPQRSTUVWXYZabcdefghijklmnopqrstuvwxyz0123456789''"

definition ALNUM_LEN :: int where
  "ALNUM_LEN = int (length ALNUM_CHARS)"

text \<open>
  The C library's \<^verbatim>\<open>rand\<close>: the sequence of values it will return, and how many were
  taken.  Its values are non-negative, so C's division of them is \<open>div\<close>.
\<close>

record rng =
  rand_values :: "nat \<Rightarrow> int"
  rand_taken :: nat

definition rand :: "rng \<Rightarrow> int \<times> rng" where
  "rand g = (rand_values g (rand_taken g), g\<lparr>rand_taken := Suc (rand_taken g)\<rparr>)"

text \<open>
  GLib's \<^verbatim>\<open>g_strlcpy (dest, src, dest_size)\<close>, as GLib documents it: at most
  \<open>dest_size - 1\<close> characters of \<open>src\<close> are copied and the result is always
  NUL-terminated (nothing is written when \<open>dest_size\<close> is 0).
\<close>

definition g_strlcpy :: "(int \<Rightarrow> guint8) \<Rightarrow> int \<Rightarrow> guint8 list \<Rightarrow> nat \<Rightarrow> (int \<Rightarrow> guint8)" where
  "g_strlcpy m dest src dest_size =
     (if dest_size = 0 then m
      else let n = min (length src) (dest_size - 1)
           in (\<lambda>a. if dest \<le> a \<and> a < dest + int n then src ! nat (a - dest)
                    else if a = dest + int n then 0
                    else m a))"

text \<open>\<^verbatim>\<open>buf[i]\<close> read and written, the string \<^verbatim>\<open>"%s"\<close>, and the loop of lines 1845-1846.\<close>

definition peek :: "packet_buffer \<Rightarrow> int \<Rightarrow> guint8" where
  "peek b i = store b (buf b + i)"

definition poke :: "packet_buffer \<Rightarrow> int \<Rightarrow> guint8 \<Rightarrow> packet_buffer" where
  "poke b i v = b\<lparr>store := (store b)(buf b + i := v)\<rparr>"

definition percent_s :: "guint8 list" where
  "percent_s = map (\<lambda>c. of_nat (of_char c)) ''%s''"

definition fill_aa :: "packet_buffer \<Rightarrow> int \<Rightarrow> guint32 \<Rightarrow> packet_buffer" where
  "fill_aa b i pkt_caplen =
     b\<lparr>store := (\<lambda>a. if buf b + i \<le> a \<and> a < buf b + sint pkt_caplen then 170 else store b a)\<rparr>"

text \<open>
  Lines 1813-1848, the body run for a byte that is to be changed: the buffer, the value
  of \<^verbatim>\<open>i\<close> and the random source afterwards.  \<^verbatim>\<open>RAND_MAX\<close> is the platform's.
\<close>

definition inject_error ::
  "int \<Rightarrow> guint32 \<Rightarrow> packet_buffer \<Rightarrow> int \<Rightarrow> rng \<Rightarrow> packet_buffer \<times> int \<times> rng" where
  "inject_error RAND_MAX pkt_caplen b i g =
     (let (r, g) = rand g;
          err_type = r div (RAND_MAX div ERR_WT_TOTAL + 1);
          (b, err_type, g) =
            (if err_type < ERR_WT_BIT
             then let (r, g) = rand g
                  in (poke b i (peek b i XOR push_bit (nat (r div (RAND_MAX div 8 + 1))) 1),
                      ERR_WT_TOTAL, g)
             else (b, err_type - ERR_WT_BYTE, g));
          (b, err_type, g) =
            (if err_type < ERR_WT_BYTE
             then let (r, g) = rand g
                  in (poke b i (word_of_int (r div (RAND_MAX div 255 + 1))), ERR_WT_TOTAL, g)
             else (b, err_type - ERR_WT_BYTE, g));
          (b, err_type, g) =
            (if err_type < ERR_WT_ALNUM
             then let (r, g) = rand g
                  in (poke b i (ALNUM_CHARS ! nat (r div (RAND_MAX div ALNUM_LEN + 1))),
                      ERR_WT_TOTAL, g)
             else (b, err_type - ERR_WT_ALNUM, g));
          (b, err_type) =
            (if err_type < ERR_WT_FMT
             then ((if (word_of_int i :: guint32) < pkt_caplen - 2
                    then b\<lparr>store := g_strlcpy (store b) (buf b + i) percent_s 2\<rparr>
                    else b),
                   ERR_WT_TOTAL)
             else (b, err_type - ERR_WT_FMT))
      in if err_type < ERR_WT_AA
         then (fill_aa b i pkt_caplen, sint pkt_caplen, g)
         else (b, i, g))"

text \<open>
  Lines 1811-1850: the loop over the bytes from \<^verbatim>\<open>real_data_start\<close> on.  The test
  \<^verbatim>\<open>rand() <= err_prob * RAND_MAX\<close> is in floating point: \<open>hit\<close> stands for it.
\<close>

function mutate_packet ::
  "(int \<Rightarrow> bool) \<Rightarrow> int \<Rightarrow> guint32 \<Rightarrow> packet_buffer \<Rightarrow> int \<Rightarrow> rng \<Rightarrow> packet_buffer \<times> rng"
  where
  "mutate_packet hit RAND_MAX pkt_caplen b i g =
     (if i < sint pkt_caplen
      then let (r, g) = rand g
           in if hit r
              then let (b, i, g) = inject_error RAND_MAX pkt_caplen b i g
                   in mutate_packet hit RAND_MAX pkt_caplen b (i + 1) g
              else mutate_packet hit RAND_MAX pkt_caplen b (i + 1) g
      else (b, g))"
  by pat_completeness auto
termination
  apply (relation "measure (\<lambda>(hit, RAND_MAX, pkt_caplen, b, i, g). nat (sint pkt_caplen - i))")
  apply simp_all
  apply (auto simp: inject_error_def Let_def split: prod.splits if_splits)
  done

declare mutate_packet.simps [simp del]

section \<open>Properties\<close>

subsection \<open>Arithmetic of 32-bit words\<close>

lemma wrap_hi:
  assumes "(2147483648::int) \<le> x" "x < 4294967296"
  shows "(x + 2147483648) mod 4294967296 = x - 2147483648"
proof -
  have e: "x + 2147483648 = (x - 2147483648) + 1 * 4294967296"
    by simp
  have "(x + 2147483648) mod 4294967296 = (x - 2147483648) mod 4294967296"
    unfolding e by (rule mod_mult_self1)
  also have "\<dots> = x - 2147483648"
    using assms by simp
  finally show ?thesis .
qed

lemma uint32_lt: "uint (w :: 32 word) < 4294967296"
  using uint_lt2p [of w] by simp

lemma sint32:
  "sint (w :: 32 word) = (if uint w < 2147483648 then uint w else uint w - 4294967296)"
proof -
  have b: "0 \<le> uint w" "uint w < 4294967296"
    using uint_lt2p [of w] by simp_all
  have s: "sint w = (uint w + 2147483648) mod 4294967296 - 2147483648"
    by (simp add: sint_uint signed_take_bit_eq_take_bit_shift take_bit_eq_mod)
  show ?thesis
  proof (cases "uint w < 2147483648")
    case True
    then show ?thesis using b s by simp
  next
    case False
    then show ?thesis using b s wrap_hi [of "uint w"] by simp
  qed
qed

lemma uint32_sub:
  "uint (x - y :: 32 word) =
     (if uint y \<le> uint x then uint x - uint y else uint x - uint y + 4294967296)"
  using uint_sub_if' [of x y] by simp

lemma uint32_add:
  "uint (x + y :: 32 word) =
     (if uint x + uint y < 4294967296 then uint x + uint y
      else uint x + uint y - 4294967296)"
  using uint_plus_if' [of x y] by simp


subsection \<open>Chopping never removes more than the captured length\<close>













lemma chop_none_signs: "0 \<le> sint (len_begin chop_none)" "sint (len_end chop_none) \<le> 0"
  by (simp_all add: chop_none_def)

lemma sint32_range: "- 2147483648 \<le> sint (w :: 32 word)" "sint (w :: 32 word) < 2147483648"
  using sint_ge [of w] sint_lt [of w] by simp_all

lemma sint32_add_exact:
  fixes a b :: "32 word"
  assumes "- 2147483648 \<le> sint a + sint b" "sint a + sint b < 2147483648"
  shows "sint (a + b) = sint a + sint b"
  using assms by (simp add: sint_word_ariths signed_take_bit_int_eq_self)

lemma chop_option_signs:
  assumes "0 \<le> sint (len_begin chop)" and "sint (len_end chop) \<le> 0"
    and "sint (len_begin chop) + sint choplen < 2147483648"
    and "- 2147483648 \<le> sint (len_end chop) + sint choplen"
  shows "0 \<le> sint (len_begin (chop_option chopoff choplen chop))"
    and "sint (len_end (chop_option chopoff choplen chop)) \<le> 0"
proof -
  have b: "0 < sint choplen \<Longrightarrow> sint (len_begin chop + choplen) = sint (len_begin chop) + sint choplen"
    using assms sint32_range [of "len_begin chop"] by (intro sint32_add_exact) linarith+
  have e: "sint choplen < 0 \<Longrightarrow> sint (len_end chop + choplen) = sint (len_end chop) + sint choplen"
    using assms sint32_range [of "len_end chop"] by (intro sint32_add_exact) linarith+
  show "0 \<le> sint (len_begin (chop_option chopoff choplen chop))"
    using assms(1) b by (auto simp: chop_option_def Let_def)
  show "sint (len_end (chop_option chopoff choplen chop)) \<le> 0"
    using assms(2) e by (auto simp: chop_option_def Let_def)
qed




subsection \<open>When the offsets exceed the packet\<close>

lemma chop_limit_excess:
  assumes "cl < off_begin_pos c - off_end_neg c"
  shows "chop_limit cl c = c\<lparr>len_begin := 0, len_end := 0\<rparr>"
  using assms by (simp add: chop_limit_def Let_def)

lemma handle_chopping_no_lengths:
  assumes "len_begin (chop_normalize (caplen in_phdr) chop) = 0"
    and "len_end (chop_normalize (caplen in_phdr) chop) = 0"
  shows "handle_chopping chop out_phdr in_phdr b adjlen = (out_phdr, b)"
  using assms by (simp add: handle_chopping_def chop_from_begin_def chop_from_end_def Let_def)

text \<open>
  C2, as stated, at a packet of 50 captured bytes and the option \<^verbatim>\<open>-C 100\<close>: the removal
  requested from the front alone exceeds the captured bytes, yet the begin length is
  limited to 50 rather than zeroed, and the packet loses all its 50 bytes.
\<close>

theorem chop_front_excess_counterexample:
  "uint (caplen \<lparr>caplen = 50, len = 60\<rparr>)
     < sint (len_begin \<lparr>len_begin = 100, off_begin_pos = 0, off_begin_neg = 0,
                        len_end = 0, off_end_pos = 0, off_end_neg = 0\<rparr>)
   \<and> len_begin (chop_normalize 50
         \<lparr>len_begin = 100, off_begin_pos = 0, off_begin_neg = 0,
          len_end = 0, off_end_pos = 0, off_end_neg = 0\<rparr>) = 50
   \<and> chop_packet
         \<lparr>len_begin = 100, off_begin_pos = 0, off_begin_neg = 0,
          len_end = 0, off_end_pos = 0, off_end_neg = 0\<rparr>
         \<lparr>caplen = 50, len = 60\<rparr> \<lparr>store = (\<lambda>a. 0), buf = 0\<rparr> False
       = (\<lparr>caplen = 0, len = 60\<rparr>, \<lparr>store = (\<lambda>a. 0), buf = 50\<rparr>)"
  by (simp add: chop_packet_def handle_chopping_def chop_normalize_def chop_regions_def
     chop_swap_crossed_def chop_fold_offsets_def chop_clear_offsets_def chop_limit_def
     chop_from_begin_def chop_from_end_def Let_def)

text \<open>
  C2, amended.  The test of line 2031 compares the captured length with the offsets of
  the two regions (begin offset minus the non-positive end offset, as an unsigned value),
  not with the lengths to remove.  When these offsets exceed the captured length, both
  chop lengths are zeroed and the header, the bytes and the buffer pointer are left as
  they were.
\<close>

theorem chop_offsets_excess_unchanged:
  assumes "caplen phdr < off_begin_pos (chop_regions (caplen phdr) chop)
                          - off_end_neg (chop_regions (caplen phdr) chop)"
  shows "len_begin (chop_normalize (caplen phdr) chop) = 0
         \<and> len_end (chop_normalize (caplen phdr) chop) = 0
         \<and> chop_packet chop phdr b adjlen = (phdr, b)"
proof -
  have z: "len_begin (chop_normalize (caplen phdr) chop) = 0"
       "len_end (chop_normalize (caplen phdr) chop) = 0"
    using chop_limit_excess [OF assms] by (simp_all add: chop_normalize_def)
  then show ?thesis
    by (simp add: chop_packet_def handle_chopping_no_lengths)
qed

theorem chop_offsets_excess_unchanged_witness:
  "caplen \<lparr>caplen = 50, len = 60\<rparr>
     < off_begin_pos (chop_regions (caplen \<lparr>caplen = 50, len = 60\<rparr>)
         \<lparr>len_begin = 10, off_begin_pos = 60, off_begin_neg = 0,
          len_end = 0, off_end_pos = 0, off_end_neg = 0\<rparr>)
       - off_end_neg (chop_regions (caplen \<lparr>caplen = 50, len = 60\<rparr>)
         \<lparr>len_begin = 10, off_begin_pos = 60, off_begin_neg = 0,
          len_end = 0, off_end_pos = 0, off_end_neg = 0\<rparr>)
   \<and> chop_packet
         \<lparr>len_begin = 10, off_begin_pos = 60, off_begin_neg = 0,
          len_end = 0, off_end_pos = 0, off_end_neg = 0\<rparr>
         \<lparr>caplen = 50, len = 60\<rparr> \<lparr>store = (\<lambda>a. 0), buf = 0\<rparr> True
       = (\<lparr>caplen = 50, len = 60\<rparr>, \<lparr>store = (\<lambda>a. 0), buf = 0\<rparr>)"
proof -
  have h: "caplen \<lparr>caplen = 50, len = 60\<rparr>
     < off_begin_pos (chop_regions (caplen \<lparr>caplen = 50, len = 60\<rparr>)
         \<lparr>len_begin = 10, off_begin_pos = 60, off_begin_neg = 0,
          len_end = 0, off_end_pos = 0, off_end_neg = 0\<rparr>)
       - off_end_neg (chop_regions (caplen \<lparr>caplen = 50, len = 60\<rparr>)
         \<lparr>len_begin = 10, off_begin_pos = 60, off_begin_neg = 0,
          len_end = 0, off_end_pos = 0, off_end_neg = 0\<rparr>)"
    by (simp add: chop_regions_def chop_swap_crossed_def chop_fold_offsets_def
        chop_clear_offsets_def Let_def)
  show ?thesis
    using h chop_offsets_excess_unchanged [OF h, of "\<lparr>store = (\<lambda>a. 0), buf = 0\<rparr>" True]
    by simp
qed

subsection \<open>Nanosecond arithmetic\<close>

lemma sint_ONE_BILLION: "sint ONE_BILLION = 1000000000"
  by (simp add: ONE_BILLION_def)

lemma uint_ONE_BILLION: "uint ONE_BILLION = 1000000000"
  by (simp add: ONE_BILLION_def)

lemma sint32_small:
  fixes a b :: "32 word"
  assumes "0 \<le> sint a" "sint a < 1000000000" "0 \<le> sint b" "sint b < 1000000000"
  shows "sint (a + b) = sint a + sint b"
    and "sint (a + b - ONE_BILLION) = sint a + sint b - 1000000000"
    and "sint (ONE_BILLION + a - b) = sint a + 1000000000 - sint b"
    and "sint (a - b) = sint a - sint b"
  using assms uint32_lt [of a] uint32_lt [of b]
  unfolding sint32 uint32_add uint32_sub uint_ONE_BILLION
  by (simp_all split: if_splits; insert uint_ge_0 [of a] uint_ge_0 [of b]; linarith)+

lemma strict_rewrite_exact:
  assumes "nstime_normal p" "nstime_normal (tv adj)"
  shows "nstime_normal (strict_rewrite adj p)
         \<and> nstime_ns (strict_rewrite adj p) = nstime_ns p + nstime_ns (tv adj)"
  using assms
  by (simp add: nstime_normal_def nstime_ns_def strict_rewrite_def Let_def
      sint32_small sint_ONE_BILLION algebra_simps)


subsection \<open>Strict time adjustment\<close>

lemma sint32_of_int:
  assumes "- 2147483648 \<le> x" "x < 2147483648"
  shows "sint (word_of_int x :: 32 word) = x"
  using assms by (simp add: sint_sbintrunc' signed_take_bit_int_eq_self)

lemma nstime_delta_fields:
  "secs (nstime_delta b a) =
     sgn (nstime_ns b - nstime_ns a) * (\<bar>nstime_ns b - nstime_ns a\<bar> div 1000000000)"
  "sint (nsecs (nstime_delta b a)) =
     sgn (nstime_ns b - nstime_ns a) * (\<bar>nstime_ns b - nstime_ns a\<bar> mod 1000000000)"
proof -
  let ?d = "nstime_ns b - nstime_ns a"
  show "secs (nstime_delta b a) = sgn ?d * (\<bar>?d\<bar> div 1000000000)"
    by (simp add: nstime_delta_def Let_def)
  have m: "0 \<le> \<bar>?d\<bar> mod 1000000000" "\<bar>?d\<bar> mod 1000000000 < 1000000000"
    by simp_all
  have "- 2147483648 \<le> sgn ?d * (\<bar>?d\<bar> mod 1000000000)"
       "sgn ?d * (\<bar>?d\<bar> mod 1000000000) < 2147483648"
    using m by (auto simp: sgn_if)
  then have "sint (word_of_int (sgn ?d * (\<bar>?d\<bar> mod 1000000000)) :: 32 word)
             = sgn ?d * (\<bar>?d\<bar> mod 1000000000)"
    by (rule sint32_of_int)
  moreover have "nsecs (nstime_delta b a) = word_of_int (sgn ?d * (\<bar>?d\<bar> mod 1000000000))"
    unfolding nstime_delta_def Let_def by (rule nstime_t.select_convs)
  ultimately show "sint (nsecs (nstime_delta b a)) = sgn ?d * (\<bar>?d\<bar> mod 1000000000)"
    by (simp only:)
qed

lemma nstime_delta_negative_iff:
  "secs (nstime_delta b a) < 0 \<or> sint (nsecs (nstime_delta b a)) < 0
     \<longleftrightarrow> nstime_ns b < nstime_ns a"
proof -
  let ?d = "nstime_ns b - nstime_ns a"
  have m: "0 \<le> \<bar>?d\<bar> mod 1000000000" "0 \<le> \<bar>?d\<bar> div 1000000000"
    by simp_all
  have dm: "\<bar>?d\<bar> = 1000000000 * (\<bar>?d\<bar> div 1000000000) + \<bar>?d\<bar> mod 1000000000"
    by simp
  show ?thesis
  proof (cases "?d < 0")
    case True
    then have "0 < \<bar>?d\<bar> div 1000000000 \<or> 0 < \<bar>?d\<bar> mod 1000000000"
      using dm m by linarith
    with True show ?thesis
      by (auto simp: nstime_delta_fields sgn_if)
  next
    case False
    then show ?thesis
      using m by (auto simp: nstime_delta_fields sgn_if mult_less_0_iff)
  qed
qed

lemma nstime_zero_iff: "p = NSTIME_INIT_ZERO \<longleftrightarrow> secs p = 0 \<and> nsecs p = 0"
  by (cases p) (simp add: NSTIME_INIT_ZERO_def)

lemma nstime_ns_zero: "nstime_ns NSTIME_INIT_ZERO = 0"
  by (simp add: NSTIME_INIT_ZERO_def nstime_ns_def)

lemma nstime_ns_tv_nonneg:
  assumes "nstime_normal t" "0 \<le> secs t"
  shows "0 \<le> nstime_ns t"
  using assms by (simp add: nstime_normal_def nstime_ns_def)

lemma strict_step_snd: "snd (strict_time_adjustment adj p ts) = fst (strict_time_adjustment adj p ts)"
  by (simp add: strict_time_adjustment_def Let_def)

lemma strict_step_normal:
  assumes "nstime_normal p" "nstime_normal ts" "nstime_normal (tv adj)"
  shows "nstime_normal (fst (strict_time_adjustment adj p ts))"
  using assms strict_rewrite_exact [of p adj]
  by (simp add: strict_time_adjustment_def Let_def)

lemma strict_step_monotone:
  assumes neg: "is_negative adj = 0"
    and n: "nstime_normal p" "nstime_normal ts" "nstime_normal (tv adj)"
    and d: "0 \<le> secs (tv adj)"
    and z: "p \<noteq> NSTIME_INIT_ZERO \<or> 0 \<le> secs ts"
  shows "nstime_ns p \<le> nstime_ns (fst (strict_time_adjustment adj p ts))"
proof (cases "p = NSTIME_INIT_ZERO")
  case True
  then have "fst (strict_time_adjustment adj p ts) = ts"
    by (simp add: strict_time_adjustment_def Let_def NSTIME_INIT_ZERO_def)
  moreover have "0 \<le> nstime_ns ts"
    using z True n(2) by (simp add: nstime_ns_tv_nonneg)
  ultimately show ?thesis
    using True by (simp add: nstime_ns_zero)
next
  case False
  then have nz: "secs p \<noteq> 0 \<or> nsecs p \<noteq> 0"
    by (simp add: nstime_zero_iff)
  show ?thesis
  proof (cases "nstime_ns ts < nstime_ns p")
    case True
    then have "fst (strict_time_adjustment adj p ts) = strict_rewrite adj p"
      using nz neg nstime_delta_negative_iff [of ts p]
      by (simp add: strict_time_adjustment_def Let_def)
    then show ?thesis
      using strict_rewrite_exact [OF n(1) n(3)] nstime_ns_tv_nonneg [OF n(3) d] by simp
  next
    case False
    then have "fst (strict_time_adjustment adj p ts) = ts"
      using nz neg nstime_delta_negative_iff [of ts p]
      by (simp add: strict_time_adjustment_def Let_def)
    then show ?thesis
      using False by simp
  qed
qed

lemma strict_run_length: "length (strict_run adj p tss) = length tss"
  by (induction tss arbitrary: p) (simp_all split: prod.splits)

lemma strict_run_Suc:
  "Suc i < length tss \<Longrightarrow>
   strict_run adj p tss ! Suc i =
     fst (strict_time_adjustment adj (strict_run adj p tss ! i) (tss ! Suc i))"
proof (induction tss arbitrary: p i)
  case Nil
  then show ?case by simp
next
  case (Cons ts tss)
  obtain ts' p' where st: "strict_time_adjustment adj p ts = (ts', p')"
    by (cases "strict_time_adjustment adj p ts")
  have pe: "p' = ts'"
    using strict_step_snd [of adj p ts] st by simp
  show ?case
  proof (cases i)
    case 0
    with Cons.prems obtain t2 rest where r: "tss = t2 # rest"
      by (cases tss) auto
    show ?thesis
      using 0 st pe r by (simp split: prod.splits)
  next
    case (Suc j)
    with Cons.prems have "Suc j < length tss" by simp
    from Cons.IH [OF this, of p'] show ?thesis
      using Suc st by simp
  qed
qed

lemma strict_run_normal:
  "nstime_normal p \<Longrightarrow> nstime_normal (tv adj) \<Longrightarrow> \<forall>ts \<in> set tss. nstime_normal ts \<Longrightarrow>
   i < length tss \<Longrightarrow> nstime_normal (strict_run adj p tss ! i)"
proof (induction tss arbitrary: p i)
  case Nil
  then show ?case by simp
next
  case (Cons ts tss)
  obtain ts' p' where st: "strict_time_adjustment adj p ts = (ts', p')"
    by (cases "strict_time_adjustment adj p ts")
  have pe: "p' = ts'"
    using strict_step_snd [of adj p ts] st by simp
  have nt: "nstime_normal ts'"
    using strict_step_normal [of p ts adj] Cons.prems st by simp
  show ?case
  proof (cases i)
    case 0
    then show ?thesis using st nt by simp
  next
    case (Suc j)
    with Cons.prems have "j < length tss" by simp
    from Cons.IH [of p' j] this Cons.prems nt pe show ?thesis
      using Suc st by simp
  qed
qed

text \<open>
  Where the code keeps the order: with a non-negative strict adjustment, normalized
  timestamps and \<^verbatim>\<open>previous_time\<close> initially zero, the timestamp of a packet after the
  step is not earlier than the one of the packet before it, unless that earlier output
  is the value (0, 0) and the packet's own timestamp is before the epoch.
\<close>

lemma strict_adjust_monotone:
  assumes "is_negative adj = 0" and "nstime_normal (tv adj)" and "0 \<le> secs (tv adj)"
    and "\<forall>ts \<in> set tss. nstime_normal ts"
    and "Suc i < length tss"
    and "strict_run adj NSTIME_INIT_ZERO tss ! i \<noteq> NSTIME_INIT_ZERO \<or> 0 \<le> secs (tss ! Suc i)"
  shows "nstime_ns (strict_run adj NSTIME_INIT_ZERO tss ! i)
         \<le> nstime_ns (strict_run adj NSTIME_INIT_ZERO tss ! Suc i)"
proof -
  have z: "nstime_normal NSTIME_INIT_ZERO"
    by (simp add: nstime_normal_def NSTIME_INIT_ZERO_def)
  have ni: "nstime_normal (strict_run adj NSTIME_INIT_ZERO tss ! i)"
    using assms by (intro strict_run_normal z) simp_all
  have nt: "nstime_normal (tss ! Suc i)"
    using assms by simp
  show ?thesis
    unfolding strict_run_Suc [OF assms(5)]
    by (rule strict_step_monotone [OF assms(1) ni nt assms(2) assms(3) assms(6)])
qed

lemma strict_adjust_monotone_example:
  "is_negative \<lparr>tv = \<lparr>secs = 0, nsecs = 1000\<rparr>, is_negative = 0\<rparr> = 0
   \<and> nstime_normal (tv \<lparr>tv = \<lparr>secs = 0, nsecs = 1000\<rparr>, is_negative = 0\<rparr>)
   \<and> nstime_normal \<lparr>secs = 10, nsecs = 500\<rparr>
   \<and> nstime_normal \<lparr>secs = 9, nsecs = 999999999\<rparr>
   \<and> strict_run \<lparr>tv = \<lparr>secs = 0, nsecs = 1000\<rparr>, is_negative = 0\<rparr> NSTIME_INIT_ZERO
         [\<lparr>secs = 10, nsecs = 500\<rparr>, \<lparr>secs = 9, nsecs = 999999999\<rparr>] ! 0 \<noteq> NSTIME_INIT_ZERO
   \<and> nstime_ns (strict_run \<lparr>tv = \<lparr>secs = 0, nsecs = 1000\<rparr>, is_negative = 0\<rparr>
         NSTIME_INIT_ZERO [\<lparr>secs = 10, nsecs = 500\<rparr>, \<lparr>secs = 9, nsecs = 999999999\<rparr>] ! 0)
       \<le> nstime_ns (strict_run \<lparr>tv = \<lparr>secs = 0, nsecs = 1000\<rparr>, is_negative = 0\<rparr>
         NSTIME_INIT_ZERO [\<lparr>secs = 10, nsecs = 500\<rparr>, \<lparr>secs = 9, nsecs = 999999999\<rparr>] ! Suc 0)"
proof -
  let ?adj = "\<lparr>tv = \<lparr>secs = 0, nsecs = 1000\<rparr>, is_negative = 0\<rparr>"
  let ?tss = "[\<lparr>secs = 10, nsecs = 500\<rparr>, \<lparr>secs = 9, nsecs = 999999999\<rparr>]"
  have h1: "is_negative ?adj = 0" by simp
  have h2: "nstime_normal (tv ?adj)" by (simp add: nstime_normal_def)
  have h3: "0 \<le> secs (tv ?adj)" by simp
  have h4: "\<forall>ts \<in> set ?tss. nstime_normal ts" by (simp add: nstime_normal_def)
  have h5: "Suc 0 < length ?tss" by simp
  have h6: "strict_run ?adj NSTIME_INIT_ZERO ?tss ! 0 \<noteq> NSTIME_INIT_ZERO"
    by (simp add: strict_time_adjustment_def NSTIME_INIT_ZERO_def Let_def)
  then have h6': "strict_run ?adj NSTIME_INIT_ZERO ?tss ! 0 \<noteq> NSTIME_INIT_ZERO
                  \<or> 0 \<le> secs (?tss ! Suc 0)" ..
  show ?thesis
    using h1 h2 h4 h6 strict_adjust_monotone [OF h1 h2 h3 h4 h5 h6'] by simp
qed

text \<open>
  C5, evaluated with \<^verbatim>\<open>-S 0.000001\<close> at the timestamps (0, 0) and (-1, 0): the first
  output is (0, 0), which line 1576 takes for "no previous timestamp", so the second
  packet passes unchanged and its output is one second earlier than the previous output,
  where the option is to ensure chronological order.
\<close>

theorem strict_adjust_zero_breaks_order:
  "is_negative \<lparr>tv = \<lparr>secs = 0, nsecs = 1000\<rparr>, is_negative = 0\<rparr> = 0
   \<and> strict_run \<lparr>tv = \<lparr>secs = 0, nsecs = 1000\<rparr>, is_negative = 0\<rparr> NSTIME_INIT_ZERO
        [\<lparr>secs = 0, nsecs = 0\<rparr>, \<lparr>secs = - 1, nsecs = 0\<rparr>]
       = [\<lparr>secs = 0, nsecs = 0\<rparr>, \<lparr>secs = - 1, nsecs = 0\<rparr>]
   \<and> nstime_ns \<lparr>secs = - 1, nsecs = 0\<rparr> < nstime_ns \<lparr>secs = 0, nsecs = 0\<rparr>"
  by (simp add: strict_time_adjustment_def NSTIME_INIT_ZERO_def nstime_ns_def Let_def)

text \<open>
  C6, evaluated with \<^verbatim>\<open>-S -0.000001\<close> at the timestamps (0, 0), (5, 0) and (7, 0): the
  first output (0, 0) is taken for "no previous timestamp" at line 1576, and the outputs
  are (0, 0), (5, 0) and (5, 1000), not (0, 0), (0, 1000) and (0, 2000).
\<close>

theorem strict_forced_zero_breaks_delta:
  "strict_run \<lparr>tv = \<lparr>secs = 0, nsecs = 1000\<rparr>, is_negative = 1\<rparr> NSTIME_INIT_ZERO
        [\<lparr>secs = 0, nsecs = 0\<rparr>, \<lparr>secs = 5, nsecs = 0\<rparr>, \<lparr>secs = 7, nsecs = 0\<rparr>]
       = [\<lparr>secs = 0, nsecs = 0\<rparr>, \<lparr>secs = 5, nsecs = 0\<rparr>, \<lparr>secs = 5, nsecs = 1000\<rparr>]"
  by (simp add: strict_time_adjustment_def strict_rewrite_def NSTIME_INIT_ZERO_def
      ONE_BILLION_def Let_def)

lemma nstime_ns_nonzero:
  assumes "nstime_ns p \<noteq> 0"
  shows "secs p \<noteq> 0 \<or> nsecs p \<noteq> 0"
  using assms by (auto simp: nstime_ns_def)

lemma strict_step_forced:
  assumes "is_negative adj \<noteq> 0" "nstime_ns p \<noteq> 0"
  shows "strict_time_adjustment adj p ts = (strict_rewrite adj p, strict_rewrite adj p)"
  using assms(1) nstime_ns_nonzero [OF assms(2)]
  by (auto simp: strict_time_adjustment_def Let_def)

text \<open>
  Where the code keeps the fixed gap: in the negative (forced) mode with an adjustment of
  0.000001 s, for three timestamped packets of which the first has the normalized
  timestamp \<open>t0\<close>, where \<open>t0\<close> is neither the time (0, 0) nor one microsecond before it,
  and the other two have any timestamps at all, the three outputs are \<open>t0\<close>,
  \<open>t0 + 0.000001\<close> and \<open>t0 + 0.000002\<close>, with normalized nanoseconds.
\<close>

lemma strict_forced_three:
  assumes "is_negative adj \<noteq> 0" and "tv adj = \<lparr>secs = 0, nsecs = 1000\<rparr>"
    and "nstime_normal t0" and "nstime_ns t0 \<noteq> 0" and "nstime_ns t0 \<noteq> - 1000"
  shows "strict_run adj NSTIME_INIT_ZERO [t0, t1, t2]
           = [t0, strict_rewrite adj t0, strict_rewrite adj (strict_rewrite adj t0)]
         \<and> nstime_normal (strict_rewrite adj t0)
         \<and> nstime_ns (strict_rewrite adj t0) = nstime_ns t0 + 1000
         \<and> nstime_normal (strict_rewrite adj (strict_rewrite adj t0))
         \<and> nstime_ns (strict_rewrite adj (strict_rewrite adj t0)) = nstime_ns t0 + 2000"
proof -
  have na: "nstime_normal (tv adj)" and da: "nstime_ns (tv adj) = 1000"
    using assms(2) by (simp_all add: nstime_normal_def nstime_ns_def)
  have o1: "nstime_normal (strict_rewrite adj t0)"
           "nstime_ns (strict_rewrite adj t0) = nstime_ns t0 + 1000"
    using strict_rewrite_exact [OF assms(3) na] da by simp_all
  have o2: "nstime_normal (strict_rewrite adj (strict_rewrite adj t0))"
           "nstime_ns (strict_rewrite adj (strict_rewrite adj t0)) = nstime_ns t0 + 2000"
    using strict_rewrite_exact [OF o1(1) na] da o1(2) by simp_all
  have s0: "strict_time_adjustment adj NSTIME_INIT_ZERO t0 = (t0, t0)"
    by (simp add: strict_time_adjustment_def NSTIME_INIT_ZERO_def)
  have s1: "strict_time_adjustment adj t0 t1 = (strict_rewrite adj t0, strict_rewrite adj t0)"
    using assms(1,4) by (rule strict_step_forced)
  have "nstime_ns (strict_rewrite adj t0) \<noteq> 0"
    using o1(2) assms(5) by simp
  with assms(1) have s2: "strict_time_adjustment adj (strict_rewrite adj t0) t2
      = (strict_rewrite adj (strict_rewrite adj t0), strict_rewrite adj (strict_rewrite adj t0))"
    by (rule strict_step_forced)
  show ?thesis
    using o1 o2 by (simp add: s0 s1 s2)
qed

lemma strict_forced_three_example:
  "nstime_normal \<lparr>secs = 3, nsecs = 999999500\<rparr>
   \<and> nstime_ns \<lparr>secs = 3, nsecs = 999999500\<rparr> \<noteq> 0
   \<and> nstime_ns \<lparr>secs = 3, nsecs = 999999500\<rparr> \<noteq> - 1000
   \<and> strict_run \<lparr>tv = \<lparr>secs = 0, nsecs = 1000\<rparr>, is_negative = 1\<rparr> NSTIME_INIT_ZERO
        [\<lparr>secs = 3, nsecs = 999999500\<rparr>, \<lparr>secs = 1, nsecs = 7\<rparr>, \<lparr>secs = 90, nsecs = 0\<rparr>]
       = [\<lparr>secs = 3, nsecs = 999999500\<rparr>, \<lparr>secs = 4, nsecs = 500\<rparr>, \<lparr>secs = 4, nsecs = 1500\<rparr>]"
proof -
  let ?adj = "\<lparr>tv = \<lparr>secs = 0, nsecs = 1000\<rparr>, is_negative = 1\<rparr>"
  let ?t0 = "\<lparr>secs = 3, nsecs = 999999500\<rparr>"
  have h1: "is_negative ?adj \<noteq> 0" by simp
  have h2: "tv ?adj = \<lparr>secs = 0, nsecs = 1000\<rparr>" by simp
  have h3: "nstime_normal ?t0" by (simp add: nstime_normal_def)
  have h4: "nstime_ns ?t0 \<noteq> 0" by (simp add: nstime_ns_def)
  have h5: "nstime_ns ?t0 \<noteq> - 1000" by (simp add: nstime_ns_def)
  have r1: "strict_rewrite ?adj ?t0 = \<lparr>secs = 4, nsecs = 500\<rparr>"
    by (simp add: strict_rewrite_def ONE_BILLION_def)
  have r2: "strict_rewrite ?adj \<lparr>secs = 4, nsecs = 500\<rparr> = \<lparr>secs = 4, nsecs = 1500\<rparr>"
    by (simp add: strict_rewrite_def ONE_BILLION_def)
  show ?thesis
    using h3 h4 h5
      strict_forced_three [OF h1 h2 h3 h4 h5, of "\<lparr>secs = 1, nsecs = 7\<rparr>" "\<lparr>secs = 90, nsecs = 0\<rparr>"]
    by (simp only: r1 r2 simp_thms)
qed

subsection \<open>Fixed time shift\<close>



subsection \<open>The zero timestamp as "no previous timestamp"\<close>

text \<open>
  C10.  \<^verbatim>\<open>previous_time\<close> starts as (0, 0) and line 1576 reads that value as "nothing
  recorded yet".  So whenever a packet's timestamp after the strict-adjustment step is
  exactly (0, 0), the next timestamped packet passes unchanged, exactly as the first
  packet of a run does, whatever the adjustment and its sign.
\<close>

theorem strict_zero_sentinel:
  assumes "fst (strict_time_adjustment adj p ts) = NSTIME_INIT_ZERO"
  shows "strict_time_adjustment adj (snd (strict_time_adjustment adj p ts)) ts' = (ts', ts')
         \<and> strict_time_adjustment adj (snd (strict_time_adjustment adj p ts)) ts'
             = strict_time_adjustment adj NSTIME_INIT_ZERO ts'"
proof -
  have "snd (strict_time_adjustment adj p ts) = NSTIME_INIT_ZERO"
    using assms by (simp add: strict_step_snd)
  then show ?thesis
    by (simp add: strict_time_adjustment_def NSTIME_INIT_ZERO_def)
qed

theorem strict_zero_sentinel_witness:
  "fst (strict_time_adjustment \<lparr>tv = \<lparr>secs = 0, nsecs = 1000\<rparr>, is_negative = 1\<rparr>
          \<lparr>secs = - 1, nsecs = 999999000\<rparr> \<lparr>secs = 7, nsecs = 0\<rparr>) = NSTIME_INIT_ZERO
   \<and> strict_time_adjustment \<lparr>tv = \<lparr>secs = 0, nsecs = 1000\<rparr>, is_negative = 1\<rparr>
        (snd (strict_time_adjustment \<lparr>tv = \<lparr>secs = 0, nsecs = 1000\<rparr>, is_negative = 1\<rparr>
          \<lparr>secs = - 1, nsecs = 999999000\<rparr> \<lparr>secs = 7, nsecs = 0\<rparr>))
        \<lparr>secs = 3, nsecs = 5\<rparr> = (\<lparr>secs = 3, nsecs = 5\<rparr>, \<lparr>secs = 3, nsecs = 5\<rparr>)"
proof -
  have h: "fst (strict_time_adjustment \<lparr>tv = \<lparr>secs = 0, nsecs = 1000\<rparr>, is_negative = 1\<rparr>
          \<lparr>secs = - 1, nsecs = 999999000\<rparr> \<lparr>secs = 7, nsecs = 0\<rparr>) = NSTIME_INIT_ZERO"
    by (simp add: strict_time_adjustment_def strict_rewrite_def NSTIME_INIT_ZERO_def
        ONE_BILLION_def Let_def)
  show ?thesis
    using h strict_zero_sentinel [OF h, of "\<lparr>secs = 3, nsecs = 5\<rparr>"] by simp
qed

subsection \<open>The ring of digests\<close>

lemma imod_cases:
  fixes x W :: int
  assumes "0 < W" "- W \<le> x" "x < W"
  shows "x mod W = (if 0 \<le> x then x else x + W)"
proof (cases "0 \<le> x")
  case True
  then show ?thesis using assms by simp
next
  case False
  have "x mod W = (x + W) mod W" by simp
  also have "\<dots> = x + W"
  proof (rule mod_pos_pos_trivial)
    show "0 \<le> x + W" using assms by simp
    show "x + W < W" using False by simp
  qed
  finally have m: "x mod W = x + W" .
  show ?thesis unfolding m using False by simp
qed

lemma next_dup_entry_mod:
  assumes "0 \<le> cur_dup_entry g" "cur_dup_entry g < dup_window g"
  shows "next_dup_entry g = (cur_dup_entry g + 1) mod dup_window g"
proof (cases "dup_window g \<le> cur_dup_entry g + 1")
  case True
  with assms have "cur_dup_entry g + 1 = dup_window g" by simp
  then show ?thesis using True by (simp add: next_dup_entry_def Let_def)
next
  case False
  then show ?thesis using assms by (simp add: next_dup_entry_def Let_def)
qed

lemma next_dup_entry_range:
  assumes "0 \<le> cur_dup_entry g" "cur_dup_entry g < dup_window g"
  shows "0 \<le> next_dup_entry g \<and> next_dup_entry g < dup_window g"
  using assms by (simp add: next_dup_entry_def Let_def)

lemma dist_step:
  fixes c i W :: int
  assumes "0 \<le> c" "c < W" "0 \<le> i" "i < W" "i \<noteq> (c + 1) mod W"
  shows "((c + 1) mod W - i) mod W = (c - i) mod W + 1"
proof (cases "c + 1 < W")
  case True
  then have c': "(c + 1) mod W = c + 1" using assms by simp
  show ?thesis
    using assms True unfolding c'
    by (simp add: imod_cases [of W "c + 1 - i"] imod_cases [of W "c - i"])
next
  case False
  then have cw: "c + 1 = W" using assms by simp
  then have c': "(c + 1) mod W = 0" by simp
  show ?thesis
    using assms cw unfolding c'
    by (simp add: imod_cases [of W "- i"] imod_cases [of W "c - i"])
qed

lemma ring_put_simps [simp]:
  "cur_dup_entry (ring_put w g) = next_dup_entry g"
  "dup_window (ring_put w g) = dup_window g"
  "ignored_bytes (ring_put w g) = ignored_bytes g"
  "skip_radiotap (ring_put w g) = skip_radiotap g"
  "relative_time_window (ring_put w g) = relative_time_window g"
  "fd_hash (ring_put w g) = (fd_hash g)(next_dup_entry g := w (fd_hash g (next_dup_entry g)))"
  by (simp_all add: ring_put_def Let_def)

lemma ring_puts_snoc: "ring_puts (ws @ [w]) g = ring_put w (ring_puts ws g)"
  by (induction ws arbitrary: g) simp_all

lemma ring_puts_config [simp]:
  "dup_window (ring_puts ws g) = dup_window g"
  "ignored_bytes (ring_puts ws g) = ignored_bytes g"
  "skip_radiotap (ring_puts ws g) = skip_radiotap g"
  "relative_time_window (ring_puts ws g) = relative_time_window g"
  by (induction ws arbitrary: g) (simp_all add: ring_put_simps)

lemma ring_puts_cur:
  assumes "0 \<le> cur_dup_entry g" "cur_dup_entry g < dup_window g"
  shows "0 \<le> cur_dup_entry (ring_puts ws g) \<and> cur_dup_entry (ring_puts ws g) < dup_window g"
  using assms
proof (induction ws arbitrary: g)
  case Nil
  then show ?case by simp
next
  case (Cons w ws)
  have "0 \<le> cur_dup_entry (ring_put w g) \<and> cur_dup_entry (ring_put w g) < dup_window (ring_put w g)"
    using next_dup_entry_range [OF Cons.prems] by (simp add: ring_put_simps)
  then show ?case
    using Cons.IH [of "ring_put w g"] by (simp add: ring_put_simps)
qed

lemma ring_puts_slots:
  assumes g: "0 \<le> cur_dup_entry g" "cur_dup_entry g < dup_window g"
    and i: "0 \<le> i" "i < dup_window g"
    and d: "nat ((cur_dup_entry (ring_puts ws g) - i) mod dup_window g) < length ws"
  shows "\<exists>e. fd_hash (ring_puts ws g) i =
           (ws ! (length ws - 1 - nat ((cur_dup_entry (ring_puts ws g) - i) mod dup_window g))) e"
  using d
proof (induction ws rule: rev_induct)
  case Nil
  then show ?case by simp
next
  case (snoc w ws)
  let ?W = "dup_window g"
  let ?g1 = "ring_puts ws g"
  let ?g2 = "ring_puts (ws @ [w]) g"
  have r1: "0 \<le> cur_dup_entry ?g1" "cur_dup_entry ?g1 < ?W"
    using ring_puts_cur [OF g, of ws] by simp_all
  have w1: "dup_window ?g1 = ?W"
    by (simp add: ring_puts_config)
  have c2: "cur_dup_entry ?g2 = (cur_dup_entry ?g1 + 1) mod ?W"
    using next_dup_entry_mod [of ?g1] r1 w1 by (simp add: ring_puts_snoc ring_put_simps)
  have h2: "fd_hash ?g2 = (fd_hash ?g1)(cur_dup_entry ?g2 := w (fd_hash ?g1 (cur_dup_entry ?g2)))"
    by (simp add: ring_puts_snoc ring_put_simps)
  show ?case
  proof (cases "i = cur_dup_entry ?g2")
    case True
    then show ?thesis
      using h2 by (auto simp: nth_append)
  next
    case False
    then have ds: "(cur_dup_entry ?g2 - i) mod ?W = (cur_dup_entry ?g1 - i) mod ?W + 1"
      unfolding c2 using dist_step [OF r1 i] by simp
    have nn: "0 \<le> (cur_dup_entry ?g1 - i) mod ?W"
      using g by simp
    have d1: "nat ((cur_dup_entry ?g1 - i) mod ?W) < length ws"
      using snoc.prems ds nn by simp
    have idx: "length (ws @ [w]) - 1 - nat ((cur_dup_entry ?g2 - i) mod ?W)
               = length ws - 1 - nat ((cur_dup_entry ?g1 - i) mod ?W)"
      using ds nn d1 by (simp add: nat_add_distrib)
    from snoc.IH [OF d1] obtain e where
      e: "fd_hash ?g1 i = (ws ! (length ws - 1 - nat ((cur_dup_entry ?g1 - i) mod ?W))) e"
      by blast
    have lt: "length ws - 1 - nat ((cur_dup_entry ?g1 - i) mod ?W) < length ws"
      using d1 by simp
    have "fd_hash ?g2 i = fd_hash ?g1 i"
      using h2 False by simp
    then show ?thesis
      unfolding idx using e lt by (auto simp: nth_append)
  qed
qed

subsection \<open>Both functions as ring writes\<close>

lemma dup_offset_config:
  assumes "ignored_bytes g' = ignored_bytes g" "skip_radiotap g' = skip_radiotap g"
  shows "dup_offset g' fd flen = dup_offset g fd flen"
  using assms by (simp add: dup_offset_def)

lemma dup_writer_config:
  assumes "ignored_bytes g' = ignored_bytes g" "skip_radiotap g' = skip_radiotap g"
  shows "dup_writer md5 g' = dup_writer md5 g"
  using dup_offset_config [OF assms] by (simp add: dup_writer_def fun_eq_iff)

lemma dup_insert_ring: "dup_insert md5 fd flen g = ring_put (dup_writer md5 g (fd, flen)) g"
  by (simp add: dup_insert_def ring_put_def dup_writer_def Let_def)

lemma is_duplicate_parts:
  "fst (is_duplicate md5 fd flen g) = dup_scan (dup_insert md5 fd flen g) 0"
  "snd (is_duplicate md5 fd flen g) = dup_insert md5 fd flen g"
  by (simp_all add: is_duplicate_def Let_def)

lemma dup_run_ring: "dup_run md5 g ps = ring_puts (map (dup_writer md5 g) ps) g"
proof (induction ps arbitrary: g)
  case Nil
  then show ?case by simp
next
  case (Cons p ps)
  obtain fd flen where p: "p = (fd, flen)" by (cases p)
  have "dup_writer md5 (ring_put (dup_writer md5 g (fd, flen)) g) = dup_writer md5 g"
    by (rule dup_writer_config) (simp_all add: ring_put_simps)
  then show ?case
    using Cons.IH [of "dup_insert md5 fd flen g"]
    by (simp add: p is_duplicate_parts dup_insert_ring)
qed

lemma dup_writer_hash:
  "fd_len (dup_writer md5 g (fd, flen) e) = flen"
  "digest (dup_writer md5 g (fd, flen) e) = md5 (dup_bytes g fd flen)"
  by (simp_all add: dup_writer_def dup_bytes_def)

lemma dup_scan_iff:
  "dup_scan g i \<longleftrightarrow>
     (\<exists>j. i \<le> j \<and> j < dup_window g \<and> j \<noteq> cur_dup_entry g
          \<and> same_hash (fd_hash g j) (fd_hash g (cur_dup_entry g)))"
proof (induction g i rule: dup_scan.induct)
  case (1 g i)
  show ?case
  proof (cases "i < dup_window g")
    case False
    then show ?thesis
      by (subst dup_scan.simps) auto
  next
    case True
    have split: "\<And>P. (\<exists>j. i \<le> j \<and> P j) \<longleftrightarrow> P i \<or> (\<exists>j. i + 1 \<le> j \<and> P j)"
    proof -
      fix P :: "int \<Rightarrow> bool"
      have "\<And>j. i \<le> j \<longleftrightarrow> j = i \<or> i + 1 \<le> j" by auto
      then show "(\<exists>j. i \<le> j \<and> P j) \<longleftrightarrow> P i \<or> (\<exists>j. i + 1 \<le> j \<and> P j)" by metis
    qed
    show ?thesis
    proof (cases "i = cur_dup_entry g")
      case c: True
      have "dup_scan g i = dup_scan g (i + 1)"
        using True c by (subst dup_scan.simps) simp
      then show ?thesis
        using "1.IH"(1) [OF True c] c
        by (subst split) simp
    next
      case c: False
      show ?thesis
      proof (cases "same_hash (fd_hash g i) (fd_hash g (cur_dup_entry g))")
        case m: True
        have "dup_scan g i"
          using True c m by (subst dup_scan.simps) (simp add: same_hash_def)
        then show ?thesis
          using True c m by auto
      next
        case m: False
        have e: "dup_scan g i = dup_scan g (i + 1)"
          using True c m by (subst dup_scan.simps) (auto simp: same_hash_def)
        have nm: "\<not> (fd_len (fd_hash g i) = fd_len (fd_hash g (cur_dup_entry g))
                 \<and> digest (fd_hash g i) = digest (fd_hash g (cur_dup_entry g)))"
          using m by (simp add: same_hash_def)
        show ?thesis
          using e "1.IH"(2) [OF True c nm] m
          by (subst split) simp
      qed
    qed
  qed
qed

lemma dist_nonzero:
  fixes a b W :: int
  assumes "0 \<le> a" "a < W" "0 \<le> b" "b < W" "a \<noteq> b"
  shows "0 < (a - b) mod W" "(a - b) mod W < W"
  using assms by (simp_all add: imod_cases [of W "a - b"])

lemma dist_back:
  fixes c m W :: int
  assumes "0 < W" "0 \<le> m" "m < W"
  shows "(c - (c - m) mod W) mod W = m"
proof -
  have "(c - (c - m) mod W) mod W = (c - (c - m)) mod W"
    by (rule mod_diff_right_eq)
  then show ?thesis using assms by simp
qed

lemma ring_puts_newest:
  assumes "0 \<le> cur_dup_entry g" "cur_dup_entry g < dup_window g"
  shows "\<exists>e. fd_hash (ring_puts (ws @ [w]) g) (cur_dup_entry (ring_puts (ws @ [w]) g)) = w e"
  by (auto simp: ring_puts_snoc ring_put_simps)

lemma content_dup_found:
  assumes g: "0 \<le> cur_dup_entry g" "cur_dup_entry g < dup_window g"
    and same: "len1 = len2" "dup_bytes g fd1 len1 = dup_bytes g fd2 len2"
    and k: "int (length qs) + 2 \<le> dup_window g"
  shows "fst (is_duplicate md5 fd2 len2 (dup_run md5 (snd (is_duplicate md5 fd1 len1 g)) qs))"
proof -
  let ?W = "dup_window g"
  define w2 where "w2 = dup_writer md5 g (fd2, len2)"
  define ws where "ws = map (dup_writer md5 g) ((fd1, len1) # qs)"
  define G where "G = ring_puts (ws @ [w2]) g"
  have cfg: "dup_writer md5 (ring_put (dup_writer md5 g (fd1, len1)) g) = dup_writer md5 g"
    by (rule dup_writer_config) simp_all
  have cfg2: "dup_writer md5 (ring_puts ws g) = dup_writer md5 g"
    by (rule dup_writer_config) simp_all
  have "dup_run md5 (dup_insert md5 fd1 len1 g) qs = ring_puts ws g"
    using cfg by (simp add: ws_def dup_run_ring dup_insert_ring)
  then have GG: "dup_insert md5 fd2 len2 (dup_run md5 (dup_insert md5 fd1 len1 g) qs) = G"
    using cfg2 by (simp add: G_def w2_def dup_insert_ring ring_puts_snoc)
  have W: "dup_window G = ?W"
    by (simp add: G_def)
  have c: "0 \<le> cur_dup_entry G" "cur_dup_entry G < ?W"
    using ring_puts_cur [OF g, of "ws @ [w2]"] by (simp_all add: G_def)
  have len: "length (ws @ [w2]) = length qs + 2"
    by (simp add: ws_def)
  have first: "(ws @ [w2]) ! 0 = dup_writer md5 g (fd1, len1)"
    by (simp add: ws_def)
  define s where "s = (cur_dup_entry G - (int (length qs) + 1)) mod ?W"
  have s: "0 \<le> s" "s < ?W"
    using g by (simp_all add: s_def)
  have ds: "(cur_dup_entry G - s) mod ?W = int (length qs) + 1"
    unfolding s_def using k g by (intro dist_back) simp_all
  then have sc: "s \<noteq> cur_dup_entry G"
    by auto
  have dn: "nat ((cur_dup_entry G - s) mod ?W) = length qs + 1"
    using ds by simp
  have dl: "nat ((cur_dup_entry G - s) mod ?W) < length (ws @ [w2])"
    unfolding len dn by simp
  have "\<exists>e. fd_hash G s =
          ((ws @ [w2]) ! (length (ws @ [w2]) - 1 - nat ((cur_dup_entry G - s) mod ?W))) e"
    by (rule ring_puts_slots [OF g s, of "ws @ [w2]", folded G_def, OF dl])
  then obtain e where e: "fd_hash G s = dup_writer md5 g (fd1, len1) e"
    unfolding dn len using first by auto
  obtain e' where e': "fd_hash G (cur_dup_entry G) = w2 e'"
    using ring_puts_newest [OF g, of ws w2] by (auto simp: G_def)
  have "same_hash (fd_hash G s) (fd_hash G (cur_dup_entry G))"
    using same by (simp add: e e' w2_def same_hash_def dup_writer_hash)
  then have "dup_scan G 0"
    unfolding dup_scan_iff using s sc W by auto
  then show ?thesis
    by (simp add: is_duplicate_parts GG)
qed

lemma content_dup_evicted:
  assumes g: "0 \<le> cur_dup_entry g" "cur_dup_entry g < dup_window g"
    and k: "dup_window g - 1 \<le> int (length qs)"
    and nm: "\<forall>(fd, flen) \<in> set qs.
               \<not> (flen = len2 \<and> md5 (dup_bytes g fd flen) = md5 (dup_bytes g fd2 len2))"
  shows "\<not> fst (is_duplicate md5 fd2 len2 (dup_run md5 g qs))"
proof -
  let ?W = "dup_window g"
  let ?ws = "map (dup_writer md5 g) qs"
  let ?w2 = "dup_writer md5 g (fd2, len2)"
  let ?G = "ring_puts (?ws @ [?w2]) g"
  have cfg2: "dup_writer md5 (ring_puts ?ws g) = dup_writer md5 g"
    by (rule dup_writer_config) (simp_all add: ring_puts_config)
  have G: "dup_insert md5 fd2 len2 (dup_run md5 g qs) = ?G"
    using cfg2 by (simp add: dup_run_ring dup_insert_ring ring_puts_snoc)
  have W: "dup_window ?G = ?W"
    by (simp add: ring_puts_config)
  have c: "0 \<le> cur_dup_entry ?G" "cur_dup_entry ?G < ?W"
    using ring_puts_cur [OF g, of "?ws @ [?w2]"] by simp_all
  obtain e' where e': "fd_hash ?G (cur_dup_entry ?G) = ?w2 e'"
    using ring_puts_newest [OF g, of ?ws ?w2] by blast
  have "\<not> same_hash (fd_hash ?G j) (fd_hash ?G (cur_dup_entry ?G))"
    if j: "0 \<le> j" "j < ?W" "j \<noteq> cur_dup_entry ?G" for j
  proof -
    let ?d = "(cur_dup_entry ?G - j) mod ?W"
    have d: "0 < ?d" "?d < ?W"
      using dist_nonzero [OF c j(1,2)] j(3) by auto
    define n where "n = length (?ws @ [?w2]) - 1 - nat ?d"
    have dl: "nat ?d < length (?ws @ [?w2])"
      using d k by simp
    have "\<exists>e. fd_hash ?G j = ((?ws @ [?w2]) ! n) e"
      unfolding n_def by (rule ring_puts_slots [OF g j(1,2) dl])
    moreover have idx: "n < length qs"
      unfolding n_def using d k by simp
    ultimately obtain e where e: "fd_hash ?G j = dup_writer md5 g (qs ! n) e"
      by (auto simp: nth_append)
    obtain fd flen where q: "qs ! n = (fd, flen)"
      by (cases "qs ! n")
    have "(fd, flen) \<in> set qs"
      using q nth_mem [OF idx] by simp
    then have "\<not> (flen = len2 \<and> md5 (dup_bytes g fd flen) = md5 (dup_bytes g fd2 len2))"
      using nm by auto
    then show ?thesis
      by (simp add: e e' q same_hash_def dup_writer_hash)
  qed
  then have "\<not> dup_scan ?G 0"
    unfolding dup_scan_iff W by auto
  then show ?thesis
    by (simp add: is_duplicate_parts G)
qed

lemma is_duplicate_cur:
  assumes "0 \<le> cur_dup_entry g" "cur_dup_entry g < dup_window g"
  shows "0 \<le> cur_dup_entry (snd (is_duplicate md5 fd flen g))"
    "cur_dup_entry (snd (is_duplicate md5 fd flen g)) < dup_window (snd (is_duplicate md5 fd flen g))"
    "dup_window (snd (is_duplicate md5 fd flen g)) = dup_window g"
    "dup_bytes (snd (is_duplicate md5 fd flen g)) = dup_bytes g"
  using next_dup_entry_range [OF assms]
    dup_offset_config [of "ring_put (dup_writer md5 g (fd, flen)) g" g]
  by (simp_all add: is_duplicate_parts dup_insert_ring ring_put_simps dup_bytes_def fun_eq_iff)

text \<open>
  C3, amended.  The ring has \<open>W\<close> slots and the packet just inserted takes one of them,
  so a packet is compared with the \<open>W - 1\<close> insertions before it.  For two packets of the
  same captured length whose bytes after the skipped prefix are the same: when at most
  \<open>W - 2\<close> packets were inserted between them (the first is among the previous \<open>W - 1\<close>
  insertions), \<^verbatim>\<open>is_duplicate\<close> returns true for the second; when at least \<open>W - 1\<close>
  packets, none with the length and digest of the pair, were inserted between them (so
  also when \<open>W\<close> were), it returns false.
\<close>

theorem content_window_dedup:
  assumes "0 \<le> cur_dup_entry g" and "cur_dup_entry g < dup_window g"
    and "len1 = len2" and "dup_bytes g fd1 len1 = dup_bytes g fd2 len2"
  shows "(int (length qs) + 2 \<le> dup_window g \<longrightarrow>
            fst (is_duplicate md5 fd2 len2
                   (dup_run md5 (snd (is_duplicate md5 fd1 len1 g)) qs)))
       \<and> (dup_window g - 1 \<le> int (length qs)
          \<and> (\<forall>(fd, flen) \<in> set qs.
                \<not> (flen = len2 \<and> md5 (dup_bytes g fd flen) = md5 (dup_bytes g fd2 len2))) \<longrightarrow>
            \<not> fst (is_duplicate md5 fd2 len2
                     (dup_run md5 (snd (is_duplicate md5 fd1 len1 g)) qs)))"
proof (intro conjI impI)
  assume "int (length qs) + 2 \<le> dup_window g"
  with assms show "fst (is_duplicate md5 fd2 len2
                   (dup_run md5 (snd (is_duplicate md5 fd1 len1 g)) qs))"
    by (rule content_dup_found)
next
  let ?g1 = "snd (is_duplicate md5 fd1 len1 g)"
  assume a: "dup_window g - 1 \<le> int (length qs)
          \<and> (\<forall>(fd, flen) \<in> set qs.
                \<not> (flen = len2 \<and> md5 (dup_bytes g fd flen) = md5 (dup_bytes g fd2 len2)))"
  note c = is_duplicate_cur [OF assms(1,2), of md5 fd1 len1]
  show "\<not> fst (is_duplicate md5 fd2 len2 (dup_run md5 ?g1 qs))"
    by (rule content_dup_evicted [OF c(1,2)]) (use a c(3,4) in simp_all)
qed

theorem content_window_dedup_witness:
  "0 \<le> cur_dup_entry (example_globals 3 2 False NSTIME_INIT_ZERO)
   \<and> cur_dup_entry (example_globals 3 2 False NSTIME_INIT_ZERO)
       < dup_window (example_globals 3 2 False NSTIME_INIT_ZERO)
   \<and> dup_bytes (example_globals 3 2 False NSTIME_INIT_ZERO) (buffer_of [1, 2, 3, 4]) 4
       = dup_bytes (example_globals 3 2 False NSTIME_INIT_ZERO) (buffer_of [9, 9, 3, 4]) 4
   \<and> fst (is_duplicate digest_stub (buffer_of [9, 9, 3, 4]) 4
         (dup_run digest_stub
            (snd (is_duplicate digest_stub (buffer_of [1, 2, 3, 4]) 4
                    (example_globals 3 2 False NSTIME_INIT_ZERO)))
            [(buffer_of [5, 5, 5, 5, 5, 5], 6)]))
   \<and> \<not> fst (is_duplicate digest_stub (buffer_of [9, 9, 3, 4]) 4
         (dup_run digest_stub
            (snd (is_duplicate digest_stub (buffer_of [1, 2, 3, 4]) 4
                    (example_globals 3 2 False NSTIME_INIT_ZERO)))
            [(buffer_of [5, 5, 5, 5, 5, 5], 6), (buffer_of [7, 7, 7, 7, 7], 5)]))"
proof -
  let ?g = "example_globals 3 2 False NSTIME_INIT_ZERO"
  have h1: "0 \<le> cur_dup_entry ?g" and h2: "cur_dup_entry ?g < dup_window ?g"
    by (simp_all add: example_globals_def)
  have h3: "(4 :: guint32) = 4" by simp
  have h4: "dup_bytes ?g (buffer_of [1, 2, 3, 4]) 4 = dup_bytes ?g (buffer_of [9, 9, 3, 4]) 4"
    by (simp add: dup_bytes_def dup_offset_def buffer_bytes_def buffer_of_def
        example_globals_def Let_def upt_rec)
  have w: "dup_window ?g = 3"
    by (simp add: example_globals_def)
  show ?thesis
    using h1 h2 h4
      content_window_dedup [OF h1 h2 h3 h4, of "[(buffer_of [5, 5, 5, 5, 5, 5], 6)]" digest_stub]
      content_window_dedup [OF h1 h2 h3 h4,
        of "[(buffer_of [5, 5, 5, 5, 5, 5], 6), (buffer_of [7, 7, 7, 7, 7], 5)]" digest_stub]
    by (simp add: w)
qed

text \<open>
  C3, as stated, with a window of 2: a packet, one other packet, and the first packet
  again.  The first is among the previous 2 insertions, yet its slot is the one the
  third insertion overwrites, and \<^verbatim>\<open>is_duplicate\<close> returns false.
\<close>

theorem content_window_dedup_counterexample:
  "int (length [(buffer_of [5, 5, 5, 5, 5, 5], 6 :: guint32)]) + 1
     \<le> dup_window (example_globals 2 0 False NSTIME_INIT_ZERO)
   \<and> \<not> fst (is_duplicate digest_stub (buffer_of [1, 2, 3, 4]) 4
         (dup_run digest_stub
            (snd (is_duplicate digest_stub (buffer_of [1, 2, 3, 4]) 4
                    (example_globals 2 0 False NSTIME_INIT_ZERO)))
            [(buffer_of [5, 5, 5, 5, 5, 5], 6)]))"
  by code_simp

subsection \<open>The time window\<close>

lemma nstime_ns_delta: "nstime_ns (nstime_delta b a) = nstime_ns b - nstime_ns a"
proof -
  let ?d = "nstime_ns b - nstime_ns a"
  have "nstime_ns (nstime_delta b a)
          = sgn ?d * (\<bar>?d\<bar> div 1000000000) * 1000000000 + sgn ?d * (\<bar>?d\<bar> mod 1000000000)"
    unfolding nstime_ns_def [of "nstime_delta b a"] nstime_delta_fields ..
  also have "\<dots> = sgn ?d * (\<bar>?d\<bar> div 1000000000 * 1000000000 + \<bar>?d\<bar> mod 1000000000)"
    by (simp only: distrib_left mult.assoc)
  also have "\<dots> = sgn ?d * \<bar>?d\<bar>"
    by (simp only: div_mult_mod_eq)
  also have "\<dots> = ?d"
    by (simp add: sgn_if)
  finally show ?thesis .
qed

lemma nstime_cmp_delta:
  "0 < nstime_cmp (nstime_delta b a) w \<longleftrightarrow> nstime_ns w < nstime_ns b - nstime_ns a"
  by (auto simp: nstime_cmp_def nstime_ns_delta)

lemma normal_not_unset: "nstime_normal t \<Longrightarrow> \<not> nstime_is_unset t"
  by (auto simp: nstime_normal_def nstime_is_unset_def)

lemma rel_time_scan_step:
  assumes "(if a < 0 then dup_window g - 1 else a) = i"
    and "i \<noteq> cur_dup_entry g" and "0 \<le> i" and "i < MAX_DUP_DEPTH"
  shows "rel_time_scan g current a =
     (if nstime_is_unset (frame_time (fd_hash g i)) then Some False
      else if nstime_ns current < nstime_ns (frame_time (fd_hash g i))
           then rel_time_scan g current (i - 1)
           else if nstime_ns (relative_time_window g)
                     < nstime_ns current - nstime_ns (frame_time (fd_hash g i))
                then Some False
                else if same_hash (fd_hash g i) (fd_hash g (cur_dup_entry g)) then Some True
                     else rel_time_scan g current (i - 1))"
  using assms
  by (subst rel_time_scan.simps)
     (simp add: Let_def nstime_delta_negative_iff nstime_cmp_delta same_hash_def)

lemma rel_time_scan_home:
  assumes "(if a < 0 then dup_window g - 1 else a) = cur_dup_entry g"
  shows "rel_time_scan g current a = Some False"
  using assms by (subst rel_time_scan.simps) (simp add: Let_def)

lemma slot_wrap:
  fixes c W :: int
  assumes "0 < W"
  shows "(if (c - int d) mod W - 1 < 0 then W - 1 else (c - int d) mod W - 1)
           = (c - int (Suc d)) mod W"
proof -
  let ?s = "(c - int d) mod W"
  have r: "0 \<le> ?s" "?s < W" using assms by simp_all
  have "(c - int (Suc d)) mod W = (?s - 1) mod W"
    by (simp add: mod_diff_left_eq algebra_simps)
  also have "\<dots> = (if 0 \<le> ?s - 1 then ?s - 1 else ?s - 1 + W)"
  proof (rule imod_cases [OF assms])
    show "- W \<le> ?s - 1" using r by linarith
    show "?s - 1 < W" using r by linarith
  qed
  finally have e: "(c - int (Suc d)) mod W = (if 0 \<le> ?s - 1 then ?s - 1 else ?s - 1 + W)" .
  show ?thesis
    unfolding e using r by (cases "?s = 0") simp_all
qed

lemma slot_not_home:
  fixes c W :: int
  assumes "0 \<le> c" "c < W" "0 < d" "int d < W"
  shows "(c - int d) mod W \<noteq> c"
proof
  assume e: "(c - int d) mod W = c"
  have "(c - (c - int d) mod W) mod W = int d"
    using assms by (intro dist_back) simp_all
  then show False using e assms by simp
qed

lemma slot_home:
  fixes c W :: int
  assumes "0 \<le> c" "c < W" "int d = W"
  shows "(c - int d) mod W = c"
  using assms by simp

lemma slot_range:
  fixes c W :: int
  assumes "0 < W" "W \<le> MAX_DUP_DEPTH"
  shows "0 \<le> (c - int d) mod W" "(c - int d) mod W < MAX_DUP_DEPTH"
proof -
  show "0 \<le> (c - int d) mod W" using assms by simp
  have "(c - int d) mod W < W" using assms by simp
  then show "(c - int d) mod W < MAX_DUP_DEPTH" using assms by linarith
qed

lemma rel_time_scan_found:
  assumes v: "0 \<le> cur_dup_entry g" "cur_dup_entry g < dup_window g"
      "dup_window g \<le> MAX_DUP_DEPTH"
    and m: "0 < m" "int m < dup_window g"
    and hit: "\<not> nstime_is_unset (frame_time (fd_hash g ((cur_dup_entry g - int m) mod dup_window g)))"
      "nstime_ns (frame_time (fd_hash g ((cur_dup_entry g - int m) mod dup_window g)))
         \<le> nstime_ns current"
      "nstime_ns current
         - nstime_ns (frame_time (fd_hash g ((cur_dup_entry g - int m) mod dup_window g)))
         \<le> nstime_ns (relative_time_window g)"
      "same_hash (fd_hash g ((cur_dup_entry g - int m) mod dup_window g))
         (fd_hash g (cur_dup_entry g))"
    and pass: "\<And>d. 0 < d \<Longrightarrow> d < m \<Longrightarrow>
      \<not> nstime_is_unset (frame_time (fd_hash g ((cur_dup_entry g - int d) mod dup_window g)))
      \<and> nstime_ns (frame_time (fd_hash g ((cur_dup_entry g - int d) mod dup_window g)))
            \<le> nstime_ns current
      \<and> nstime_ns current
            - nstime_ns (frame_time (fd_hash g ((cur_dup_entry g - int d) mod dup_window g)))
            \<le> nstime_ns (relative_time_window g)"
    and d: "d < m"
  shows "rel_time_scan g current ((cur_dup_entry g - int d) mod dup_window g - 1) = Some True"
  using d
proof (induction "m - Suc d" arbitrary: d)
  case 0
  then have e: "Suc d = m" by simp
  let ?i = "(cur_dup_entry g - int (Suc d)) mod dup_window g"
  have W: "0 < dup_window g" using v by linarith
  have nh: "?i \<noteq> cur_dup_entry g"
    using slot_not_home [OF v(1,2), of "Suc d"] m e by simp
  show ?case
    using rel_time_scan_step [OF slot_wrap [OF W, of "cur_dup_entry g" d] nh
        slot_range [OF W v(3)], of current] hit
    unfolding e by simp
next
  case (Suc n)
  then have lt: "Suc d < m" by simp
  let ?i = "(cur_dup_entry g - int (Suc d)) mod dup_window g"
  have W: "0 < dup_window g" using v by linarith
  have nh: "?i \<noteq> cur_dup_entry g"
    using slot_not_home [OF v(1,2), of "Suc d"] m lt by simp
  have ih: "rel_time_scan g current (?i - 1) = Some True"
    using Suc.hyps(1) [of "Suc d"] Suc.hyps(2) lt by simp
  show ?case
    using rel_time_scan_step [OF slot_wrap [OF W, of "cur_dup_entry g" d] nh
        slot_range [OF W v(3)], of current] pass [of "Suc d"] lt ih
    by simp
qed

lemma rel_time_scan_not_found:
  assumes v: "0 \<le> cur_dup_entry g" "cur_dup_entry g < dup_window g"
      "dup_window g \<le> MAX_DUP_DEPTH"
    and m: "0 < m" "int m \<le> dup_window g"
    and stop: "int m = dup_window g
      \<or> nstime_is_unset (frame_time (fd_hash g ((cur_dup_entry g - int m) mod dup_window g)))
      \<or> (nstime_ns (frame_time (fd_hash g ((cur_dup_entry g - int m) mod dup_window g)))
            \<le> nstime_ns current
         \<and> nstime_ns (relative_time_window g)
            < nstime_ns current
              - nstime_ns (frame_time (fd_hash g ((cur_dup_entry g - int m) mod dup_window g))))"
    and nm: "\<And>d. 0 < d \<Longrightarrow> d < m \<Longrightarrow>
      \<not> same_hash (fd_hash g ((cur_dup_entry g - int d) mod dup_window g))
           (fd_hash g (cur_dup_entry g))"
    and d: "d < m"
  shows "rel_time_scan g current ((cur_dup_entry g - int d) mod dup_window g - 1) = Some False"
  using d
proof (induction "m - Suc d" arbitrary: d)
  case 0
  then have e: "Suc d = m" by simp
  let ?i = "(cur_dup_entry g - int (Suc d)) mod dup_window g"
  have W: "0 < dup_window g" using v by linarith
  show ?case
  proof (cases "int m = dup_window g")
    case True
    then have "?i = cur_dup_entry g"
      using slot_home [OF v(1,2), of m] e by simp
    then show ?thesis
      using rel_time_scan_home [of "(cur_dup_entry g - int d) mod dup_window g - 1" g current]
        slot_wrap [OF W, of "cur_dup_entry g" d] by simp
  next
    case False
    then have mlt: "int m < dup_window g" using m by linarith
    have nh: "?i \<noteq> cur_dup_entry g"
      using slot_not_home [OF v(1,2), of "Suc d"] mlt e by simp
    show ?thesis
      using rel_time_scan_step [OF slot_wrap [OF W, of "cur_dup_entry g" d] nh
          slot_range [OF W v(3)], of current] stop False
      unfolding e by auto
  qed
next
  case (Suc n)
  then have lt: "Suc d < m" by simp
  let ?i = "(cur_dup_entry g - int (Suc d)) mod dup_window g"
  have W: "0 < dup_window g" using v by linarith
  have nh: "?i \<noteq> cur_dup_entry g"
    using slot_not_home [OF v(1,2), of "Suc d"] m lt by simp
  have ih: "rel_time_scan g current (?i - 1) = Some False"
    using Suc.hyps(1) [of "Suc d"] Suc.hyps(2) lt by simp
  show ?case
    using rel_time_scan_step [OF slot_wrap [OF W, of "cur_dup_entry g" d] nh
        slot_range [OF W v(3)], of current] nm [of "Suc d"] lt ih
    by simp
qed

lemma rel_time_writer_config:
  assumes "ignored_bytes g' = ignored_bytes g"
  shows "rel_time_writer md5 g' = rel_time_writer md5 g"
  using assms by (simp add: rel_time_writer_def rel_time_offset_def fun_eq_iff)

lemma rel_time_insert_ring:
  "rel_time_insert md5 fd flen current g = ring_put (rel_time_writer md5 g (fd, flen, current)) g"
  by (simp add: rel_time_insert_def ring_put_def rel_time_writer_def Let_def)

lemma rel_time_run_ring: "rel_time_run md5 g ps = ring_puts (map (rel_time_writer md5 g) ps) g"
proof (induction ps arbitrary: g)
  case Nil
  then show ?case by simp
next
  case (Cons p ps)
  obtain fd flen current where p: "p = (fd, flen, current)" by (cases p)
  have "rel_time_writer md5 (ring_put (rel_time_writer md5 g (fd, flen, current)) g)
          = rel_time_writer md5 g"
    by (rule rel_time_writer_config) simp
  then show ?case
    using Cons.IH [of "rel_time_insert md5 fd flen current g"]
    by (simp add: p rel_time_insert_ring)
qed

lemma rel_time_writer_entry:
  "fd_len (rel_time_writer md5 g (fd, flen, current) e) = flen"
  "digest (rel_time_writer md5 g (fd, flen, current) e) = md5 (rel_time_bytes g fd flen)"
  "frame_time (rel_time_writer md5 g (fd, flen, current) e) = current"
  by (simp_all add: rel_time_writer_def rel_time_bytes_def)

text \<open>The table after the first packet, the packets in between and the second packet.\<close>

lemma rel_time_table:
  fixes qs :: "(packet_buffer \<times> guint32 \<times> nstime_t) list"
    and p1 :: "packet_buffer \<times> guint32 \<times> nstime_t"
    and md5 :: "guint8 list \<Rightarrow> 128 word" and fd2 :: packet_buffer and len2 :: guint32
    and t2 :: nstime_t and g :: globals
  assumes g: "0 \<le> cur_dup_entry g" "cur_dup_entry g < dup_window g"
  defines "G \<equiv> rel_time_insert md5 fd2 len2 t2 (rel_time_run md5 g (p1 # qs))"
  shows "dup_window G = dup_window g"
    and "relative_time_window G = relative_time_window g"
    and "0 \<le> cur_dup_entry G \<and> cur_dup_entry G < dup_window g"
    and "\<exists>e. fd_hash G (cur_dup_entry G) = rel_time_writer md5 g (fd2, len2, t2) e"
    and "0 < d \<Longrightarrow> d \<le> length qs \<Longrightarrow> int d < dup_window g \<Longrightarrow>
         \<exists>e. fd_hash G ((cur_dup_entry G - int d) mod dup_window g)
               = rel_time_writer md5 g (qs ! (length qs - d)) e"
    and "int (length qs) + 1 < dup_window g \<Longrightarrow>
         \<exists>e. fd_hash G ((cur_dup_entry G - int (Suc (length qs))) mod dup_window g)
               = rel_time_writer md5 g p1 e"
proof -
  define w2 where "w2 = rel_time_writer md5 g (fd2, len2, t2)"
  define ws where "ws = map (rel_time_writer md5 g) (p1 # qs)"
  have cfg: "rel_time_writer md5 (ring_puts ws g) = rel_time_writer md5 g"
    by (rule rel_time_writer_config) simp
  have GG: "G = ring_puts (ws @ [w2]) g"
    using cfg by (simp add: G_def ws_def w2_def rel_time_run_ring rel_time_insert_ring
        ring_puts_snoc del: ring_puts.simps list.map)
  show "dup_window G = dup_window g" "relative_time_window G = relative_time_window g"
    by (simp_all add: GG)
  show c: "0 \<le> cur_dup_entry G \<and> cur_dup_entry G < dup_window g"
    using ring_puts_cur [OF g, of "ws @ [w2]"] by (simp add: GG)
  show "\<exists>e. fd_hash G (cur_dup_entry G) = rel_time_writer md5 g (fd2, len2, t2) e"
    using ring_puts_newest [OF g, of ws w2] by (simp add: GG w2_def)
  have len: "length (ws @ [w2]) = length qs + 2"
    by (simp add: ws_def)
  have W: "0 < dup_window g" using g by linarith
  have slot: "\<exists>e. fd_hash G ((cur_dup_entry G - int d) mod dup_window g)
                 = ((ws @ [w2]) ! (length qs + 1 - d)) e"
    if d: "d < length qs + 2" "int d < dup_window g" for d
  proof -
    let ?i = "(cur_dup_entry G - int d) mod dup_window g"
    have i: "0 \<le> ?i" "?i < dup_window g"
      using W by simp_all
    have bk: "(cur_dup_entry G - ?i) mod dup_window g = int d"
      using W d by (intro dist_back) simp_all
    have dl: "nat ((cur_dup_entry G - ?i) mod dup_window g) < length (ws @ [w2])"
      unfolding bk len using d by simp
    have "\<exists>e. fd_hash G ?i =
            ((ws @ [w2]) ! (length (ws @ [w2]) - 1 - nat ((cur_dup_entry G - ?i) mod dup_window g))) e"
      by (rule ring_puts_slots [OF g i, of "ws @ [w2]", folded GG, OF dl])
    then show ?thesis
      unfolding bk len by simp
  qed
  show "\<exists>e. fd_hash G ((cur_dup_entry G - int d) mod dup_window g)
               = rel_time_writer md5 g (qs ! (length qs - d)) e"
    if "0 < d" "d \<le> length qs" "int d < dup_window g"
  proof -
    have idx: "length qs + 1 - d = Suc (length qs - d)"
      using that by simp
    have jl: "length qs - d < length qs"
      using that by simp
    have "(ws @ [w2]) ! (length qs + 1 - d) = rel_time_writer md5 g (qs ! (length qs - d))"
      unfolding idx using jl by (simp add: ws_def nth_append)
    then show ?thesis
      using slot [of d] that by simp
  qed
  show "\<exists>e. fd_hash G ((cur_dup_entry G - int (Suc (length qs))) mod dup_window g)
               = rel_time_writer md5 g p1 e"
    if "int (length qs) + 1 < dup_window g"
  proof -
    have "(ws @ [w2]) ! (length qs + 1 - Suc (length qs)) = rel_time_writer md5 g p1"
      by (simp add: ws_def)
    then show ?thesis
      using slot [of "Suc (length qs)"] that by simp
  qed
qed

lemma is_duplicate_rel_time_scan:
  "map_option fst (is_duplicate_rel_time md5 fd flen current g) =
     rel_time_scan (rel_time_insert md5 fd flen current g) current
       (cur_dup_entry (rel_time_insert md5 fd flen current g) - 1)"
  by (simp add: is_duplicate_rel_time_def Let_def split: option.splits)

lemma time_dup_found:
  assumes g: "0 \<le> cur_dup_entry g" "cur_dup_entry g < dup_window g"
      "dup_window g \<le> MAX_DUP_DEPTH"
    and wn: "0 \<le> nstime_ns (relative_time_window g)"
    and same: "len1 = len2" "rel_time_bytes g fd1 len1 = rel_time_bytes g fd2 len2"
    and n1: "nstime_normal t1"
    and w: "nstime_ns t2 - nstime_ns t1 = nstime_ns (relative_time_window g)"
    and k: "int (length qs) + 2 \<le> dup_window g"
    and mid: "\<forall>(fd, flen, t) \<in> set qs.
                nstime_normal t \<and> nstime_ns t1 \<le> nstime_ns t \<and> nstime_ns t \<le> nstime_ns t2"
  shows "map_option fst (is_duplicate_rel_time md5 fd2 len2 t2
           (rel_time_run md5 g ((fd1, len1, t1) # qs))) = Some True"
proof -
  define G where "G = rel_time_insert md5 fd2 len2 t2 (rel_time_run md5 g ((fd1, len1, t1) # qs))"
  note T = rel_time_table [OF g(1,2), where ?md5.0 = md5 and ?fd2.0 = fd2 and ?len2.0 = len2
      and ?t2.0 = t2 and ?p1.0 = "(fd1, len1, t1)" and qs = qs, folded G_def]
  have v: "0 \<le> cur_dup_entry G" "cur_dup_entry G < dup_window G" "dup_window G \<le> MAX_DUP_DEPTH"
    using T(1,3) g(3) by simp_all
  obtain e2 where e2: "fd_hash G (cur_dup_entry G) = rel_time_writer md5 g (fd2, len2, t2) e2"
    using T(4) by blast
  have start: "cur_dup_entry G - 1 = (cur_dup_entry G - int 0) mod dup_window G - 1"
    using v by simp
  have m: "0 < Suc (length qs)" "int (Suc (length qs)) < dup_window G"
    using k T(1) by simp_all
  obtain e1 where e1: "fd_hash G ((cur_dup_entry G - int (Suc (length qs))) mod dup_window G)
                         = rel_time_writer md5 g (fd1, len1, t1) e1"
    using T(6) k T(1) by auto
  have mid': "\<not> nstime_is_unset (frame_time (fd_hash G ((cur_dup_entry G - int d) mod dup_window G)))
      \<and> nstime_ns (frame_time (fd_hash G ((cur_dup_entry G - int d) mod dup_window G)))
            \<le> nstime_ns t2
      \<and> nstime_ns t2
            - nstime_ns (frame_time (fd_hash G ((cur_dup_entry G - int d) mod dup_window G)))
            \<le> nstime_ns (relative_time_window G)"
    if d: "0 < d" "d < Suc (length qs)" for d
  proof -
    have dl: "d \<le> length qs" "int d < dup_window g"
      using d k by simp_all
    obtain e where e: "fd_hash G ((cur_dup_entry G - int d) mod dup_window G)
                         = rel_time_writer md5 g (qs ! (length qs - d)) e"
      using T(5) [OF d(1) dl] T(1) by auto
    obtain fd flen t where q: "qs ! (length qs - d) = (fd, flen, t)"
      by (cases "qs ! (length qs - d)")
    have "length qs - d < length qs" using d by simp
    then have "(fd, flen, t) \<in> set qs"
      using q nth_mem [of "length qs - d" qs] by simp
    then have "nstime_normal t \<and> nstime_ns t1 \<le> nstime_ns t \<and> nstime_ns t \<le> nstime_ns t2"
      using mid by auto
    then show ?thesis
      using w by (simp add: e q rel_time_writer_entry normal_not_unset T(2))
  qed
  have "rel_time_scan G t2 ((cur_dup_entry G - int 0) mod dup_window G - 1) = Some True"
  proof (rule rel_time_scan_found [OF v m _ _ _ _ mid'])
    show "\<not> nstime_is_unset (frame_time
            (fd_hash G ((cur_dup_entry G - int (Suc (length qs))) mod dup_window G)))"
      unfolding e1 rel_time_writer_entry using n1 by (simp add: normal_not_unset)
    show "nstime_ns (frame_time
            (fd_hash G ((cur_dup_entry G - int (Suc (length qs))) mod dup_window G)))
          \<le> nstime_ns t2"
      unfolding e1 rel_time_writer_entry using w wn by simp
    show "nstime_ns t2 - nstime_ns (frame_time
            (fd_hash G ((cur_dup_entry G - int (Suc (length qs))) mod dup_window G)))
          \<le> nstime_ns (relative_time_window G)"
      unfolding e1 rel_time_writer_entry using w by (simp add: T(2))
    show "same_hash (fd_hash G ((cur_dup_entry G - int (Suc (length qs))) mod dup_window G))
            (fd_hash G (cur_dup_entry G))"
      unfolding e1 e2 same_hash_def rel_time_writer_entry using same by simp
  qed simp_all
  then show ?thesis
    unfolding is_duplicate_rel_time_scan G_def [symmetric] start .
qed

lemma time_dup_not_found:
  assumes g: "0 \<le> cur_dup_entry g" "cur_dup_entry g < dup_window g"
      "dup_window g \<le> MAX_DUP_DEPTH"
    and wn: "0 \<le> nstime_ns (relative_time_window g)"
    and w: "nstime_ns t2 - nstime_ns t1 = nstime_ns (relative_time_window g) + 1"
    and nm: "\<forall>(fd, flen, t) \<in> set qs.
               \<not> (flen = len2 \<and> md5 (rel_time_bytes g fd flen) = md5 (rel_time_bytes g fd2 len2))"
  shows "map_option fst (is_duplicate_rel_time md5 fd2 len2 t2
           (rel_time_run md5 g ((fd1, len1, t1) # qs))) = Some False"
proof -
  define G where "G = rel_time_insert md5 fd2 len2 t2 (rel_time_run md5 g ((fd1, len1, t1) # qs))"
  note T = rel_time_table [OF g(1,2), where ?md5.0 = md5 and ?fd2.0 = fd2 and ?len2.0 = len2
      and ?t2.0 = t2 and ?p1.0 = "(fd1, len1, t1)" and qs = qs, folded G_def]
  have v: "0 \<le> cur_dup_entry G" "cur_dup_entry G < dup_window G" "dup_window G \<le> MAX_DUP_DEPTH"
    using T(1,3) g(3) by simp_all
  obtain e2 where e2: "fd_hash G (cur_dup_entry G) = rel_time_writer md5 g (fd2, len2, t2) e2"
    using T(4) by blast
  have start: "cur_dup_entry G - 1 = (cur_dup_entry G - int 0) mod dup_window G - 1"
    using v by simp
  define m where "m = (if int (length qs) + 1 < dup_window g then Suc (length qs)
                       else nat (dup_window g))"
  have m: "0 < m" "int m \<le> dup_window G"
    using g T(1) by (auto simp: m_def)
  have ml: "m \<le> Suc (length qs)"
    by (auto simp: m_def)
  have stop: "int m = dup_window G
      \<or> nstime_is_unset (frame_time (fd_hash G ((cur_dup_entry G - int m) mod dup_window G)))
      \<or> (nstime_ns (frame_time (fd_hash G ((cur_dup_entry G - int m) mod dup_window G)))
            \<le> nstime_ns t2
         \<and> nstime_ns (relative_time_window G)
            < nstime_ns t2
              - nstime_ns (frame_time (fd_hash G ((cur_dup_entry G - int m) mod dup_window G))))"
  proof (cases "int (length qs) + 1 < dup_window g")
    case True
    then have me: "m = Suc (length qs)" by (simp add: m_def)
    obtain e1 where e1: "fd_hash G ((cur_dup_entry G - int (Suc (length qs))) mod dup_window G)
                         = rel_time_writer md5 g (fd1, len1, t1) e1"
      using T(6) [OF True] T(1) by auto
    show ?thesis
      unfolding me e1 rel_time_writer_entry using w wn by (simp add: T(2))
  next
    case False
    then show ?thesis
      using g T(1) by (simp add: m_def)
  qed
  have nm': "\<not> same_hash (fd_hash G ((cur_dup_entry G - int d) mod dup_window G))
                (fd_hash G (cur_dup_entry G))"
    if d: "0 < d" "d < m" for d
  proof -
    have dl: "d \<le> length qs" "int d < dup_window g"
      using d ml m T(1) by simp_all
    obtain e where e: "fd_hash G ((cur_dup_entry G - int d) mod dup_window G)
                         = rel_time_writer md5 g (qs ! (length qs - d)) e"
      using T(5) [OF d(1) dl] T(1) by auto
    obtain fd flen t where q: "qs ! (length qs - d) = (fd, flen, t)"
      by (cases "qs ! (length qs - d)")
    have "length qs - d < length qs" using d dl by simp
    then have "(fd, flen, t) \<in> set qs"
      using q nth_mem [of "length qs - d" qs] by simp
    then have "\<not> (flen = len2 \<and> md5 (rel_time_bytes g fd flen) = md5 (rel_time_bytes g fd2 len2))"
      using nm by auto
    then show ?thesis
      by (simp add: e e2 q same_hash_def rel_time_writer_entry)
  qed
  have "rel_time_scan G t2 ((cur_dup_entry G - int 0) mod dup_window G - 1) = Some False"
    by (rule rel_time_scan_not_found [OF v m stop nm']) (use m in simp_all)
  then show ?thesis
    unfolding is_duplicate_rel_time_scan G_def [symmetric] start .
qed

text \<open>
  C4, amended.  Two packets of the same length and the same digested bytes, the first
  with a normalized timestamp, and a non-negative time window.  If the second timestamp
  is exactly the window after the first, at most \<open>W - 2\<close> packets were inserted between
  them (\<open>W\<close> is the capacity of the table, \<^verbatim>\<open>MAX_DUP_DEPTH\<close> in this mode, so the first
  packet is still in the table) and every packet in between has a timestamp between
  the two (as in a non-decreasing trace), \<^verbatim>\<open>is_duplicate_rel_time\<close> returns true.  If
  the second timestamp is one nanosecond more than the window after the first and no
  packet in between has the length and digest of the pair, it returns false.
\<close>

theorem time_window_dedup:
  assumes "0 \<le> cur_dup_entry g" and "cur_dup_entry g < dup_window g"
    and "dup_window g \<le> MAX_DUP_DEPTH"
    and "0 \<le> nstime_ns (relative_time_window g)"
    and "len1 = len2" and "rel_time_bytes g fd1 len1 = rel_time_bytes g fd2 len2"
    and "nstime_normal t1"
  shows "(nstime_ns t2 - nstime_ns t1 = nstime_ns (relative_time_window g)
          \<and> int (length qs) + 2 \<le> dup_window g
          \<and> (\<forall>(fd, flen, t) \<in> set qs.
                nstime_normal t \<and> nstime_ns t1 \<le> nstime_ns t \<and> nstime_ns t \<le> nstime_ns t2) \<longrightarrow>
            map_option fst (is_duplicate_rel_time md5 fd2 len2 t2
              (rel_time_run md5 g ((fd1, len1, t1) # qs))) = Some True)
       \<and> (nstime_ns t2 - nstime_ns t1 = nstime_ns (relative_time_window g) + 1
          \<and> (\<forall>(fd, flen, t) \<in> set qs.
                \<not> (flen = len2
                   \<and> md5 (rel_time_bytes g fd flen) = md5 (rel_time_bytes g fd2 len2))) \<longrightarrow>
            map_option fst (is_duplicate_rel_time md5 fd2 len2 t2
              (rel_time_run md5 g ((fd1, len1, t1) # qs))) = Some False)"
proof (intro conjI impI)
  assume "nstime_ns t2 - nstime_ns t1 = nstime_ns (relative_time_window g)
          \<and> int (length qs) + 2 \<le> dup_window g
          \<and> (\<forall>(fd, flen, t) \<in> set qs.
                nstime_normal t \<and> nstime_ns t1 \<le> nstime_ns t \<and> nstime_ns t \<le> nstime_ns t2)"
  then show "map_option fst (is_duplicate_rel_time md5 fd2 len2 t2
              (rel_time_run md5 g ((fd1, len1, t1) # qs))) = Some True"
    using assms by (intro time_dup_found) simp_all
next
  assume "nstime_ns t2 - nstime_ns t1 = nstime_ns (relative_time_window g) + 1
          \<and> (\<forall>(fd, flen, t) \<in> set qs.
                \<not> (flen = len2
                   \<and> md5 (rel_time_bytes g fd flen) = md5 (rel_time_bytes g fd2 len2)))"
  then show "map_option fst (is_duplicate_rel_time md5 fd2 len2 t2
              (rel_time_run md5 g ((fd1, len1, t1) # qs))) = Some False"
    using assms by (intro time_dup_not_found) simp_all
qed

theorem time_window_dedup_witness:
  "0 \<le> cur_dup_entry (example_globals 4 0 False \<lparr>secs = 0, nsecs = 1000\<rparr>)
   \<and> cur_dup_entry (example_globals 4 0 False \<lparr>secs = 0, nsecs = 1000\<rparr>)
       < dup_window (example_globals 4 0 False \<lparr>secs = 0, nsecs = 1000\<rparr>)
   \<and> dup_window (example_globals 4 0 False \<lparr>secs = 0, nsecs = 1000\<rparr>) \<le> MAX_DUP_DEPTH
   \<and> nstime_normal \<lparr>secs = 5, nsecs = 999999500\<rparr>
   \<and> nstime_ns \<lparr>secs = 6, nsecs = 500\<rparr> - nstime_ns \<lparr>secs = 5, nsecs = 999999500\<rparr>
       = nstime_ns (relative_time_window (example_globals 4 0 False \<lparr>secs = 0, nsecs = 1000\<rparr>))
   \<and> map_option fst (is_duplicate_rel_time digest_stub (buffer_of [1, 2, 3, 4]) 4
         \<lparr>secs = 6, nsecs = 500\<rparr>
         (rel_time_run digest_stub (example_globals 4 0 False \<lparr>secs = 0, nsecs = 1000\<rparr>)
            [(buffer_of [1, 2, 3, 4], 4, \<lparr>secs = 5, nsecs = 999999500\<rparr>),
             (buffer_of [5, 5, 5, 5, 5, 5], 6, \<lparr>secs = 5, nsecs = 999999800\<rparr>)]))
       = Some True
   \<and> map_option fst (is_duplicate_rel_time digest_stub (buffer_of [1, 2, 3, 4]) 4
         \<lparr>secs = 6, nsecs = 501\<rparr>
         (rel_time_run digest_stub (example_globals 4 0 False \<lparr>secs = 0, nsecs = 1000\<rparr>)
            [(buffer_of [1, 2, 3, 4], 4, \<lparr>secs = 5, nsecs = 999999500\<rparr>),
             (buffer_of [5, 5, 5, 5, 5, 5], 6, \<lparr>secs = 5, nsecs = 999999800\<rparr>)]))
       = Some False"
proof -
  let ?g = "example_globals 4 0 False \<lparr>secs = 0, nsecs = 1000\<rparr>"
  let ?t1 = "\<lparr>secs = 5, nsecs = 999999500\<rparr>"
  let ?qs = "[(buffer_of [5, 5, 5, 5, 5, 5], 6 :: guint32, \<lparr>secs = 5, nsecs = 999999800\<rparr>)]"
  have h1: "0 \<le> cur_dup_entry ?g" and h2: "cur_dup_entry ?g < dup_window ?g"
    and h3: "dup_window ?g \<le> MAX_DUP_DEPTH"
    and h4: "0 \<le> nstime_ns (relative_time_window ?g)"
    by (simp_all add: example_globals_def MAX_DUP_DEPTH_def nstime_ns_def)
  have h5: "(4 :: guint32) = 4" by simp
  have h6: "rel_time_bytes ?g (buffer_of [1, 2, 3, 4]) 4
            = rel_time_bytes ?g (buffer_of [1, 2, 3, 4]) 4" by simp
  have h7: "nstime_normal ?t1" by (simp add: nstime_normal_def)
  have w: "dup_window ?g = 4" "nstime_ns (relative_time_window ?g) = 1000"
    by (simp_all add: example_globals_def nstime_ns_def)
  have a: "nstime_ns \<lparr>secs = 6, nsecs = 500\<rparr> - nstime_ns ?t1 = 1000"
    and b: "nstime_ns \<lparr>secs = 6, nsecs = 501\<rparr> - nstime_ns ?t1 = 1001"
    and c: "nstime_normal \<lparr>secs = 5, nsecs = 999999800\<rparr>"
       "nstime_ns ?t1 \<le> nstime_ns \<lparr>secs = 5, nsecs = 999999800\<rparr>"
       "nstime_ns \<lparr>secs = 5, nsecs = 999999800\<rparr> \<le> nstime_ns \<lparr>secs = 6, nsecs = 500\<rparr>"
    by (simp_all add: nstime_ns_def nstime_normal_def)
  show ?thesis
    using h1 h2 h3 h7
      time_window_dedup [OF h1 h2 h3 h4 h5 h6 h7, of "\<lparr>secs = 6, nsecs = 500\<rparr>" ?qs digest_stub]
      time_window_dedup [OF h1 h2 h3 h4 h5 h6 h7, of "\<lparr>secs = 6, nsecs = 501\<rparr>" ?qs digest_stub]
    by (simp add: w a b c)
qed

lemma time_dup_evicted:
  assumes g: "0 \<le> cur_dup_entry g" "cur_dup_entry g < dup_window g"
      "dup_window g \<le> MAX_DUP_DEPTH"
    and k: "dup_window g \<le> int (length qs) + 1"
    and nm: "\<forall>(fd, flen, t) \<in> set qs.
               \<not> (flen = len2 \<and> md5 (rel_time_bytes g fd flen) = md5 (rel_time_bytes g fd2 len2))"
  shows "map_option fst (is_duplicate_rel_time md5 fd2 len2 t2
           (rel_time_run md5 g ((fd1, len1, t1) # qs))) = Some False"
proof -
  define G where "G = rel_time_insert md5 fd2 len2 t2 (rel_time_run md5 g ((fd1, len1, t1) # qs))"
  note T = rel_time_table [OF g(1,2), where ?md5.0 = md5 and ?fd2.0 = fd2 and ?len2.0 = len2
      and ?t2.0 = t2 and ?p1.0 = "(fd1, len1, t1)" and qs = qs, folded G_def]
  have v: "0 \<le> cur_dup_entry G" "cur_dup_entry G < dup_window G" "dup_window G \<le> MAX_DUP_DEPTH"
    using T(1,3) g(3) by simp_all
  obtain e2 where e2: "fd_hash G (cur_dup_entry G) = rel_time_writer md5 g (fd2, len2, t2) e2"
    using T(4) by blast
  have start: "cur_dup_entry G - 1 = (cur_dup_entry G - int 0) mod dup_window G - 1"
    using v by simp
  define m where "m = nat (dup_window g)"
  have m: "0 < m" "int m \<le> dup_window G"
    using g T(1) by (auto simp: m_def)
  have stop: "int m = dup_window G
      \<or> nstime_is_unset (frame_time (fd_hash G ((cur_dup_entry G - int m) mod dup_window G)))
      \<or> (nstime_ns (frame_time (fd_hash G ((cur_dup_entry G - int m) mod dup_window G)))
            \<le> nstime_ns t2
         \<and> nstime_ns (relative_time_window G)
            < nstime_ns t2
              - nstime_ns (frame_time (fd_hash G ((cur_dup_entry G - int m) mod dup_window G))))"
    using g T(1) by (simp add: m_def)
  have nm': "\<not> same_hash (fd_hash G ((cur_dup_entry G - int d) mod dup_window G))
                (fd_hash G (cur_dup_entry G))"
    if d: "0 < d" "d < m" for d
  proof -
    have dl: "d \<le> length qs" "int d < dup_window g"
      using d k g by (simp_all add: m_def)
    obtain e where e: "fd_hash G ((cur_dup_entry G - int d) mod dup_window G)
                         = rel_time_writer md5 g (qs ! (length qs - d)) e"
      using T(5) [OF d(1) dl] T(1) by auto
    obtain fd flen t where q: "qs ! (length qs - d) = (fd, flen, t)"
      by (cases "qs ! (length qs - d)")
    have "length qs - d < length qs" using d dl by simp
    then have "(fd, flen, t) \<in> set qs"
      using q nth_mem [of "length qs - d" qs] by simp
    then have "\<not> (flen = len2 \<and> md5 (rel_time_bytes g fd flen) = md5 (rel_time_bytes g fd2 len2))"
      using nm by auto
    then show ?thesis
      by (simp add: e e2 q same_hash_def rel_time_writer_entry)
  qed
  have "rel_time_scan G t2 ((cur_dup_entry G - int 0) mod dup_window G - 1) = Some False"
    by (rule rel_time_scan_not_found [OF v m stop nm']) (use m in simp_all)
  then show ?thesis
    unfolding is_duplicate_rel_time_scan G_def [symmetric] start .
qed

text \<open>
  C4, as stated, with the table of \<^verbatim>\<open>MAX_DUP_DEPTH\<close> slots and a window of 0.000001 s,
  all timestamps non-decreasing.  First: a packet at (5, 0), then 999999 other packets
  at (5, 0), then the first packet again at (5, 1000), exactly the window later: the slot
  of the first packet has been overwritten and the result is false.  Second: the same
  packet at (5, 0), at (5, 500) and at (5, 1001): the third is one nanosecond more than
  the window after the first, and the result is true, for it matches the second.
\<close>

theorem time_window_dedup_counterexample:
  "nstime_ns \<lparr>secs = 5, nsecs = 1000\<rparr> - nstime_ns \<lparr>secs = 5, nsecs = 0\<rparr>
     = nstime_ns (relative_time_window
         (example_globals MAX_DUP_DEPTH 0 False \<lparr>secs = 0, nsecs = 1000\<rparr>))
   \<and> map_option fst (is_duplicate_rel_time digest_stub (buffer_of [1, 2, 3, 4]) 4
         \<lparr>secs = 5, nsecs = 1000\<rparr>
         (rel_time_run digest_stub
            (example_globals MAX_DUP_DEPTH 0 False \<lparr>secs = 0, nsecs = 1000\<rparr>)
            ((buffer_of [1, 2, 3, 4], 4, \<lparr>secs = 5, nsecs = 0\<rparr>)
             # replicate 999999 (buffer_of [5, 5, 5, 5, 5, 5], 6, \<lparr>secs = 5, nsecs = 0\<rparr>))))
       = Some False
   \<and> nstime_ns \<lparr>secs = 5, nsecs = 1001\<rparr> - nstime_ns \<lparr>secs = 5, nsecs = 0\<rparr>
     = nstime_ns (relative_time_window
         (example_globals MAX_DUP_DEPTH 0 False \<lparr>secs = 0, nsecs = 1000\<rparr>)) + 1
   \<and> map_option fst (is_duplicate_rel_time digest_stub (buffer_of [1, 2, 3, 4]) 4
         \<lparr>secs = 5, nsecs = 1001\<rparr>
         (rel_time_run digest_stub
            (example_globals MAX_DUP_DEPTH 0 False \<lparr>secs = 0, nsecs = 1000\<rparr>)
            [(buffer_of [1, 2, 3, 4], 4, \<lparr>secs = 5, nsecs = 0\<rparr>),
             (buffer_of [1, 2, 3, 4], 4, \<lparr>secs = 5, nsecs = 500\<rparr>)]))
       = Some True"
proof -
  let ?g = "example_globals MAX_DUP_DEPTH 0 False \<lparr>secs = 0, nsecs = 1000\<rparr>"
  have h: "0 \<le> cur_dup_entry ?g" "cur_dup_entry ?g < dup_window ?g"
      "dup_window ?g \<le> MAX_DUP_DEPTH"
    by (simp_all add: example_globals_def MAX_DUP_DEPTH_def)
  have k: "dup_window ?g
      \<le> int (length (replicate 999999
            (buffer_of [5, 5, 5, 5, 5, 5], 6 :: guint32, \<lparr>secs = 5, nsecs = 0 :: gint\<rparr>))) + 1"
    by (simp add: example_globals_def MAX_DUP_DEPTH_def)
  have nm: "\<forall>(fd, flen, t) \<in> set (replicate 999999
            (buffer_of [5, 5, 5, 5, 5, 5], 6 :: guint32, \<lparr>secs = 5, nsecs = 0 :: gint\<rparr>)).
       \<not> (flen = 4 \<and> digest_stub (rel_time_bytes ?g fd flen)
                        = digest_stub (rel_time_bytes ?g (buffer_of [1, 2, 3, 4]) 4))"
    by simp
  have a: "map_option fst (is_duplicate_rel_time digest_stub (buffer_of [1, 2, 3, 4]) 4
         \<lparr>secs = 5, nsecs = 1000\<rparr>
         (rel_time_run digest_stub ?g
            ((buffer_of [1, 2, 3, 4], 4, \<lparr>secs = 5, nsecs = 0\<rparr>)
             # replicate 999999 (buffer_of [5, 5, 5, 5, 5, 5], 6, \<lparr>secs = 5, nsecs = 0\<rparr>))))
       = Some False"
    by (rule time_dup_evicted [OF h k nm])
  have b: "map_option fst (is_duplicate_rel_time digest_stub (buffer_of [1, 2, 3, 4]) 4
         \<lparr>secs = 5, nsecs = 1001\<rparr>
         (rel_time_run digest_stub ?g
            [(buffer_of [1, 2, 3, 4], 4, \<lparr>secs = 5, nsecs = 0\<rparr>),
             (buffer_of [1, 2, 3, 4], 4, \<lparr>secs = 5, nsecs = 500\<rparr>)]))
       = Some True"
    by code_simp
  show ?thesis
    using a b by (simp add: example_globals_def nstime_ns_def)
qed

subsection \<open>The digest offset of the two functions\<close>

lemma offsets_agree_without_radiotap:
  assumes "\<not> skip_radiotap g"
  shows "rel_time_offset g fd flen = dup_offset g fd flen"
  using assms by (simp add: dup_offset_def rel_time_offset_def Let_def)

text \<open>
  C8, evaluated with \<^verbatim>\<open>--skip-radiotap-header\<close> on a 20-byte frame whose radiotap
  header says it is 8 bytes long: \<^verbatim>\<open>is_duplicate\<close> starts the digest at offset 8 and
  digests 12 bytes, \<^verbatim>\<open>is_duplicate_rel_time\<close> has no such branch, starts at offset 0 and
  digests all 20 bytes.
\<close>

theorem radiotap_offset_differs:
  "dup_offset (example_globals 5 0 True NSTIME_INIT_ZERO)
     (buffer_of [0, 0, 8, 0, 0, 0, 0, 0, 1, 2, 3, 4, 5, 6, 7, 8, 9, 10, 11, 12]) 20 = 8
   \<and> rel_time_offset (example_globals 5 0 True NSTIME_INIT_ZERO)
     (buffer_of [0, 0, 8, 0, 0, 0, 0, 0, 1, 2, 3, 4, 5, 6, 7, 8, 9, 10, 11, 12]) 20 = 0
   \<and> length (dup_bytes (example_globals 5 0 True NSTIME_INIT_ZERO)
     (buffer_of [0, 0, 8, 0, 0, 0, 0, 0, 1, 2, 3, 4, 5, 6, 7, 8, 9, 10, 11, 12]) 20) = 12
   \<and> length (rel_time_bytes (example_globals 5 0 True NSTIME_INIT_ZERO)
     (buffer_of [0, 0, 8, 0, 0, 0, 0, 0, 1, 2, 3, 4, 5, 6, 7, 8, 9, 10, 11, 12]) 20) = 20"
  by (simp add: dup_offset_def rel_time_offset_def dup_bytes_def rel_time_bytes_def
      buffer_bytes_def radiotap_it_len_def example_globals_def buffer_of_def Let_def)

subsection \<open>The format outcome of the error injection\<close>

lemma inject_error_format:
  assumes "rand_values g (rand_taken g) div (RAND_MAX div ERR_WT_TOTAL + 1) = 15
           \<or> rand_values g (rand_taken g) div (RAND_MAX div ERR_WT_TOTAL + 1) = 16"
    and "(word_of_int i :: guint32) < pkt_caplen - 2"
  shows "peek (fst (inject_error RAND_MAX pkt_caplen b i g)) i = 37
         \<and> peek (fst (inject_error RAND_MAX pkt_caplen b i g)) (i + 1) = 0"
  using assms
  by (auto simp: inject_error_def rand_def ERR_WT_TOTAL_def ERR_WT_BIT_def ERR_WT_BYTE_def
      ERR_WT_ALNUM_def ERR_WT_FMT_def ERR_WT_AA_def g_strlcpy_def percent_s_def peek_def
      Let_def)

text \<open>
  C9, evaluated on a packet of four bytes \<^verbatim>\<open>AAAA\<close> at position 0, which is 3 bytes
  before the end, with a draw that selects the format outcome: \<^verbatim>\<open>g_strlcpy\<close> with a
  size of 2 copies one character and terminates it, so the two bytes become \<^verbatim>\<open>%\<close> and
  NUL, not \<^verbatim>\<open>%\<close> and \<^verbatim>\<open>s\<close>.
\<close>

theorem format_outcome_writes_nul:
  "(word_of_int 0 :: guint32) < 4 - 2
   \<and> map (store (fst (inject_error 2147483647 4 (buffer_of [65, 65, 65, 65]) 0
          \<lparr>rand_values = (\<lambda>n. 1789569720), rand_taken = 0\<rparr>))) [0, 1, 2, 3]
       = [37, 0, 65, 65]
   \<and> percent_s = [37, 115]"
  by (simp add: inject_error_def rand_def ERR_WT_TOTAL_def ERR_WT_BIT_def ERR_WT_BYTE_def
      ERR_WT_ALNUM_def ERR_WT_FMT_def ERR_WT_AA_def g_strlcpy_def percent_s_def buffer_of_def
      Let_def)

end
